theory Spec2Isabelle
  imports Complex_Main "HOL-Library.Multiset"
begin

section \<open>Day 8: closest-pair-first connectivity (part1, part2)\<close>

text \<open>
  The embedding follows the TypeScript of day 8: \<^verbatim>\<open>distanceSqrt\<close>,
  \<^verbatim>\<open>createSortedPairs\<close>, the class \<^verbatim>\<open>UnionFind\<close> and the two queries
  \<^verbatim>\<open>part1\<close> and \<^verbatim>\<open>part2\<close>.

  Numbers. The coordinates are integers (the puzzle's domain); sums and products of
  integers are modelled exactly, as \<open>int\<close> (a JavaScript number is exact on integers
  below \<open>2\<^sup>5\<^sup>3\<close>; rounding beyond that is not modelled). Array indices, array
  lengths and the counts that only grow are \<open>nat\<close>; the counter \<^verbatim>\<open>components\<close>,
  which is decremented, is an \<open>int\<close>. The one fractional number of the program,
  \<^verbatim>\<open>length / 2\<close>, is a \<open>real\<close>.

  The queries start from the parsed boxes: the first statement of \<^verbatim>\<open>part1\<close> and
  \<^verbatim>\<open>part2\<close> (\<^verbatim>\<open>line.split(",").map(Number)\<close>) turns every line into a box
  and nothing else reads the lines.
\<close>

subsection \<open>Boxes and distances\<close>

type_synonym Box = "int \<times> int \<times> int"

text \<open>\<^verbatim>\<open>a[0]\<close>, \<^verbatim>\<open>a[1]\<close>, \<^verbatim>\<open>a[2]\<close> of a box.\<close>

definition box0 :: "Box \<Rightarrow> int" where
  "box0 a = fst a"

definition box1 :: "Box \<Rightarrow> int" where
  "box1 a = fst (snd a)"

definition box2 :: "Box \<Rightarrow> int" where
  "box2 a = snd (snd a)"

definition distanceSqrt :: "Box \<Rightarrow> Box \<Rightarrow> int" where
  "distanceSqrt a b =
     (let dx = box0 a - box0 b;
          dy = box1 a - box1 b;
          dz = box2 a - box2 b
      in dx * dx + dy * dy + dz * dz)"

subsection \<open>Array.prototype.sort with a comparator\<close>

text \<open>
  \<^verbatim>\<open>xs.sort(cmp)\<close> is a stable sort: an element stays before a later one unless
  the comparator puts the later one strictly first. It is modelled as the stable
  insertion sort; \<open>cmp a b \<le> 0\<close> keeps \<open>a\<close> before \<open>b\<close>.
\<close>

fun Array_sort_insert :: "('a \<Rightarrow> 'a \<Rightarrow> int) \<Rightarrow> 'a \<Rightarrow> 'a list \<Rightarrow> 'a list" where
  "Array_sort_insert cmp x [] = [x]"
| "Array_sort_insert cmp x (y # ys) =
     (if cmp x y \<le> 0 then x # y # ys else y # Array_sort_insert cmp x ys)"

definition Array_sort :: "('a \<Rightarrow> 'a \<Rightarrow> int) \<Rightarrow> 'a list \<Rightarrow> 'a list" where
  "Array_sort cmp xs = foldr (Array_sort_insert cmp) xs []"

subsection \<open>createSortedPairs\<close>

text \<open>The objects \<^verbatim>\<open>{ i, j, d }\<close> of the array \<^verbatim>\<open>pairs\<close>.\<close>

record Pair =
  pair_i :: nat
  pair_j :: nat
  pair_d :: int

text \<open>The inner loop \<^verbatim>\<open>for (let j = i + 1; j < boxes.length; j++)\<close>, entered at \<open>j\<close>.\<close>

function createSortedPairs_inner :: "Box list \<Rightarrow> nat \<Rightarrow> nat \<Rightarrow> Pair list \<Rightarrow> Pair list" where
  "createSortedPairs_inner boxes i j pairs =
     (if j < length boxes
      then createSortedPairs_inner boxes i (j + 1)
             (pairs @ [\<lparr>pair_i = i, pair_j = j,
                        pair_d = distanceSqrt (boxes ! i) (boxes ! j)\<rparr>])
      else pairs)"
  by pat_completeness auto
termination
  by (relation "measure (\<lambda>(boxes, i, j, pairs). length boxes - j)") auto

declare createSortedPairs_inner.simps [simp del]

text \<open>The outer loop \<^verbatim>\<open>for (let i = 0; i < boxes.length; i++)\<close>, entered at \<open>i\<close>.\<close>

function createSortedPairs_outer :: "Box list \<Rightarrow> nat \<Rightarrow> Pair list \<Rightarrow> Pair list" where
  "createSortedPairs_outer boxes i pairs =
     (if i < length boxes
      then createSortedPairs_outer boxes (i + 1)
             (createSortedPairs_inner boxes i (i + 1) pairs)
      else pairs)"
  by pat_completeness auto
termination
  by (relation "measure (\<lambda>(boxes, i, pairs). length boxes - i)") auto

declare createSortedPairs_outer.simps [simp del]

definition createSortedPairs :: "Box list \<Rightarrow> Pair list" where
  "createSortedPairs boxes =
     Array_sort (\<lambda>a b. pair_d a - pair_d b) (createSortedPairs_outer boxes 0 [])"

subsection \<open>The class UnionFind\<close>

text \<open>
  The fields \<^verbatim>\<open>parent\<close> and \<^verbatim>\<open>size\<close>; the methods \<^verbatim>\<open>find\<close> and
  \<^verbatim>\<open>union\<close> are \<open>find_uf\<close> and \<open>union_uf\<close>.
\<close>

record UnionFind =
  parent :: "nat list"
  size_uf :: "nat list"

text \<open>The constructor: \<open>parent[i] = i\<close> and \<open>size[i] = 1\<close> for \<open>i < n\<close>.\<close>

definition UnionFind_new :: "nat \<Rightarrow> UnionFind" where
  "UnionFind_new n = \<lparr>parent = map (\<lambda>i. i) [0..<n], size_uf = replicate n 1\<rparr>"

text \<open>
  \<^verbatim>\<open>find(x)\<close> recurses along the parent links and rewrites \<open>parent[x]\<close> on the way
  back. Nothing in the method bounds the recursion, so the model is a partial function:
  \<open>None\<close> is a call that yields no root. The arrays are typed \<^verbatim>\<open>number[]\<close> and
  are only ever indexed inside \<open>[0, n)\<close> by the two queries; an index outside the
  array yields no root in the model either. The result is the returned root and the
  forest as the call leaves it.
\<close>

partial_function (option) find_uf :: "UnionFind \<Rightarrow> nat \<Rightarrow> (nat \<times> UnionFind) option" where
  "find_uf uf x =
     (if x < length (parent uf) then
        (if parent uf ! x \<noteq> x then
           Option.bind (find_uf uf (parent uf ! x))
             (\<lambda>(r, uf').
                (let uf'' = uf'\<lparr>parent := (parent uf')[x := r]\<rparr>
                 in Some (parent uf'' ! x, uf'')))
         else Some (parent uf ! x, uf))
      else None)"

declare find_uf.simps [code]

text \<open>\<^verbatim>\<open>union(a, b)\<close>: the returned flag and the forest as the call leaves it.\<close>

definition union_uf :: "UnionFind \<Rightarrow> nat \<Rightarrow> nat \<Rightarrow> (bool \<times> UnionFind) option" where
  "union_uf uf a b =
     (case find_uf uf a of
        None \<Rightarrow> None
      | Some (ra, uf1) \<Rightarrow>
          (case find_uf uf1 b of
             None \<Rightarrow> None
           | Some (rb, uf2) \<Rightarrow>
               if ra = rb then Some (False, uf2)
               else
                 (let (ra', rb') =
                        (if size_uf uf2 ! ra < size_uf uf2 ! rb then (rb, ra) else (ra, rb));
                      uf3 = uf2\<lparr>parent := (parent uf2)[rb' := ra']\<rparr>;
                      uf4 = uf3\<lparr>size_uf :=
                              (size_uf uf3)[ra' := size_uf uf3 ! ra' + size_uf uf3 ! rb']\<rparr>
                  in Some (True, uf4))))"

subsection \<open>part1\<close>

text \<open>
  The first loop of \<^verbatim>\<open>part1\<close>, entered at \<open>k\<close>:
  \<^verbatim>\<open>for (let k = 0; k < pairs.length && connections < maxConnections; k++)\<close>.
  It returns \<open>k\<close>, \<open>connections\<close> and the forest at the exit.
\<close>

function part1_connect ::
  "Pair list \<Rightarrow> real \<Rightarrow> nat \<Rightarrow> nat \<Rightarrow> UnionFind \<Rightarrow> (nat \<times> nat \<times> UnionFind) option" where
  "part1_connect pairs maxConnections k connections uf =
     (if k < length pairs \<and> real connections < maxConnections then
        (case union_uf uf (pair_i (pairs ! k)) (pair_j (pairs ! k)) of
           None \<Rightarrow> None
         | Some (merged, uf') \<Rightarrow>
             part1_connect pairs maxConnections (k + 1) (connections + 1) uf')
      else Some (k, connections, uf))"
  by pat_completeness auto
termination
  by (relation "measure (\<lambda>(pairs, m, k, c, uf). length pairs - k)") auto

declare part1_connect.simps [simp del]

text \<open>
  \<^verbatim>\<open>circuitSizes\<close> is a \<^verbatim>\<open>Map\<close>: it keeps its keys in insertion order, and
  \<^verbatim>\<open>set\<close> on a key it holds replaces the value in place.
\<close>

type_synonym circuit_map = "(nat \<times> nat) list"

fun Map_set :: "circuit_map \<Rightarrow> nat \<Rightarrow> nat \<Rightarrow> circuit_map" where
  "Map_set [] k v = [(k, v)]"
| "Map_set ((k', v') # m) k v = (if k' = k then (k, v) # m else (k', v') # Map_set m k v)"

fun Map_get :: "circuit_map \<Rightarrow> nat \<Rightarrow> nat option" where
  "Map_get [] k = None"
| "Map_get ((k', v') # m) k = (if k' = k then Some v' else Map_get m k)"

definition Map_values :: "circuit_map \<Rightarrow> nat list" where
  "Map_values m = map snd m"

text \<open>The second loop of \<^verbatim>\<open>part1\<close>, entered at \<open>i\<close>; \<open>n\<close> is \<^verbatim>\<open>length\<close>.\<close>

function part1_count ::
  "nat \<Rightarrow> nat \<Rightarrow> UnionFind \<Rightarrow> circuit_map \<Rightarrow> (circuit_map \<times> UnionFind) option" where
  "part1_count n i uf circuitSizes =
     (if i < n then
        (case find_uf uf i of
           None \<Rightarrow> None
         | Some (r, uf') \<Rightarrow>
             part1_count n (i + 1) uf'
               (Map_set circuitSizes r
                  ((case Map_get circuitSizes r of None \<Rightarrow> 0 | Some c \<Rightarrow> c) + 1)))
      else Some (circuitSizes, uf))"
  by pat_completeness auto
termination
  by (relation "measure (\<lambda>(n, i, uf, m). n - i)") auto

declare part1_count.simps [simp del]

text \<open>
  A JavaScript number as \<^verbatim>\<open>part1\<close> can return it: an integer, or \<open>NaN\<close>.
  \<^verbatim>\<open>sizes[k]\<close> past the end of the array is \<^verbatim>\<open>undefined\<close>, and a product
  with \<^verbatim>\<open>undefined\<close> is \<open>NaN\<close>.
\<close>

datatype number = Num int | NaN

definition at_index :: "nat list \<Rightarrow> nat \<Rightarrow> number" where
  "at_index xs k = (if k < length xs then Num (int (xs ! k)) else NaN)"

fun times_number :: "number \<Rightarrow> number \<Rightarrow> number" where
  "times_number (Num a) (Num b) = Num (a * b)"
| "times_number _ _ = NaN"

text \<open>The forest after the first loop of \<^verbatim>\<open>part1\<close> (with \<open>k\<close> and \<open>connections\<close>).\<close>

definition part1_connected :: "Box list \<Rightarrow> (nat \<times> nat \<times> UnionFind) option" where
  "part1_connected boxes =
     (let pairs = createSortedPairs boxes;
          n = length boxes;
          uf = UnionFind_new n;
          maxConnections = min 1000 (real n / 2)
      in part1_connect pairs maxConnections 0 0 uf)"

text \<open>The array \<^verbatim>\<open>sizes\<close> of \<^verbatim>\<open>part1\<close>.\<close>

definition part1_sizes :: "Box list \<Rightarrow> nat list option" where
  "part1_sizes boxes =
     (case part1_connected boxes of
        None \<Rightarrow> None
      | Some (k, connections, uf) \<Rightarrow>
          (case part1_count (length boxes) 0 uf [] of
             None \<Rightarrow> None
           | Some (circuitSizes, uf') \<Rightarrow>
               Some (Array_sort (\<lambda>a b. int b - int a) (Map_values circuitSizes))))"

definition part1 :: "Box list \<Rightarrow> number option" where
  "part1 boxes =
     (case part1_sizes boxes of
        None \<Rightarrow> None
      | Some sizes \<Rightarrow>
          Some (times_number (times_number (at_index sizes 0) (at_index sizes 1))
                  (at_index sizes 2)))"

subsection \<open>part2\<close>

text \<open>
  The loop of \<^verbatim>\<open>part2\<close>, entered at \<open>k\<close>:
  \<^verbatim>\<open>for (let k = 0; k < pairs.length && components > 1; k++)\<close>.
  It returns \<open>k\<close>, \<open>components\<close>, \<open>result\<close> and the forest at the exit.
\<close>

function part2_loop ::
  "Box list \<Rightarrow> Pair list \<Rightarrow> nat \<Rightarrow> int \<Rightarrow> int \<Rightarrow> UnionFind
     \<Rightarrow> (nat \<times> int \<times> int \<times> UnionFind) option" where
  "part2_loop boxes pairs k components result uf =
     (if k < length pairs \<and> components > 1 then
        (case union_uf uf (pair_i (pairs ! k)) (pair_j (pairs ! k)) of
           None \<Rightarrow> None
         | Some (merged, uf') \<Rightarrow>
             if merged then
               (let components' = components - 1;
                    result' =
                      (if components' = 1
                       then box0 (boxes ! pair_i (pairs ! k)) * box0 (boxes ! pair_j (pairs ! k))
                       else result)
                in part2_loop boxes pairs (k + 1) components' result' uf')
             else part2_loop boxes pairs (k + 1) components result uf')
      else Some (k, components, result, uf))"
  by pat_completeness auto
termination
  by (relation "measure (\<lambda>(boxes, pairs, k, c, r, uf). length pairs - k)") auto

declare part2_loop.simps [simp del]

definition part2_run :: "Box list \<Rightarrow> (nat \<times> int \<times> int \<times> UnionFind) option" where
  "part2_run boxes =
     part2_loop boxes (createSortedPairs boxes) 0 (int (length boxes)) 0
       (UnionFind_new (length boxes))"

definition part2 :: "Box list \<Rightarrow> int option" where
  "part2 boxes =
     (case part2_run boxes of
        None \<Rightarrow> None
      | Some (k, components, result, uf) \<Rightarrow> Some result)"

section \<open>Notions used to state the properties\<close>

text \<open>
  None of these is code of the program: they name what the properties below speak about.
\<close>

subsection \<open>Pairs\<close>

text \<open>
  The pair that \<open>createSortedPairs\<close> pushes for the indices \<open>a\<close>, \<open>b\<close>; the order in
  which the two loops enumerate pairs (\<open>i\<close> ascending, then \<open>j\<close> ascending); and the
  pairs of the rows \<open>as\<close> in that order.
\<close>

definition mk_pair :: "Box list \<Rightarrow> nat \<Rightarrow> nat \<Rightarrow> Pair" where
  "mk_pair boxes a b = \<lparr>pair_i = a, pair_j = b, pair_d = distanceSqrt (boxes ! a) (boxes ! b)\<rparr>"


definition all_pairs :: "Box list \<Rightarrow> nat list \<Rightarrow> Pair list" where
  "all_pairs boxes as = concat (map (\<lambda>a. map (mk_pair boxes a) [a + 1..<length boxes]) as)"

subsection \<open>Roots, sets and the invariant of a forest\<close>

text \<open>
  \<open>root_of ps x r\<close>: following the parent links \<open>ps\<close> from \<open>x\<close> arrives, after
  finitely many steps inside the array, at the self-parented index \<open>r\<close>.
\<close>

inductive root_of :: "nat list \<Rightarrow> nat \<Rightarrow> nat \<Rightarrow> bool" for ps :: "nat list" where
  root_self: "x < length ps \<Longrightarrow> ps ! x = x \<Longrightarrow> root_of ps x x"
| root_step: "x < length ps \<Longrightarrow> ps ! x \<noteq> x \<Longrightarrow> root_of ps (ps ! x) r \<Longrightarrow> root_of ps x r"

text \<open>The root that a call \<open>find(x)\<close> returns on the forest \<open>uf\<close>, if it returns.\<close>

definition find_root :: "UnionFind \<Rightarrow> nat \<Rightarrow> nat option" where
  "find_root uf x = map_option fst (find_uf uf x)"

text \<open>
  A well-formed forest: the arrays have one length; from every index the links arrive
  at a root; the size recorded at a root is the number of indices that arrive there.
\<close>

definition uf_inv :: "UnionFind \<Rightarrow> bool" where
  "uf_inv uf \<longleftrightarrow>
     length (size_uf uf) = length (parent uf)
     \<and> (\<forall>x<length (parent uf). \<exists>r. root_of (parent uf) x r)
     \<and> (\<forall>r<length (parent uf). parent uf ! r = r \<longrightarrow>
           size_uf uf ! r = card {x. root_of (parent uf) x r})"

text \<open>
  Of two roots \<open>ra = find(a)\<close> and \<open>rb = find(b)\<close>, the one whose recorded size is not
  smaller (\<open>ra\<close> on a tie) and the other one.
\<close>

definition larger_root :: "UnionFind \<Rightarrow> nat \<Rightarrow> nat \<Rightarrow> nat" where
  "larger_root uf ra rb = (if size_uf uf ! ra < size_uf uf ! rb then rb else ra)"

definition smaller_root :: "UnionFind \<Rightarrow> nat \<Rightarrow> nat \<Rightarrow> nat" where
  "smaller_root uf ra rb = (if size_uf uf ! ra < size_uf uf ! rb then ra else rb)"

text \<open>Two indices in one set; the number of sets of a forest: its self-parented indices.\<close>

definition same_set :: "UnionFind \<Rightarrow> nat \<Rightarrow> nat \<Rightarrow> bool" where
  "same_set uf a b \<longleftrightarrow> (\<exists>r. root_of (parent uf) a r \<and> root_of (parent uf) b r)"

definition num_roots :: "UnionFind \<Rightarrow> nat" where
  "num_roots uf = card {r. r < length (parent uf) \<and> parent uf ! r = r}"

text \<open>The components of a forest: its roots, each with the number of indices that find it.\<close>

definition component_roots :: "UnionFind \<Rightarrow> nat list" where
  "component_roots uf = filter (\<lambda>r. parent uf ! r = r) [0..<length (parent uf)]"

definition component_size :: "UnionFind \<Rightarrow> nat \<Rightarrow> nat" where
  "component_size uf r =
     length (filter (\<lambda>x. find_root uf x = Some r) [0..<length (parent uf)])"

definition component_sizes :: "UnionFind \<Rightarrow> nat list" where
  "component_sizes uf = map (component_size uf) (component_roots uf)"

subsection \<open>Sequences of calls\<close>

text \<open>
  A caller's sequence of \<open>find\<close> and \<open>union\<close> calls on one forest, each call on the
  forest the previous one left; a call is valid for \<open>n\<close> when its indices are below \<open>n\<close>.
\<close>

datatype uf_call = Find nat | Union nat nat

fun call_valid :: "nat \<Rightarrow> uf_call \<Rightarrow> bool" where
  "call_valid n (Find x) \<longleftrightarrow> x < n"
| "call_valid n (Union a b) \<longleftrightarrow> a < n \<and> b < n"

fun run_call :: "UnionFind \<Rightarrow> uf_call \<Rightarrow> UnionFind option" where
  "run_call uf (Find x) = map_option snd (find_uf uf x)"
| "run_call uf (Union a b) = map_option snd (union_uf uf a b)"

fun run_calls :: "UnionFind \<Rightarrow> uf_call list \<Rightarrow> UnionFind option" where
  "run_calls uf [] = Some uf"
| "run_calls uf (c # cs) =
     (case run_call uf c of None \<Rightarrow> None | Some uf' \<Rightarrow> run_calls uf' cs)"

text \<open>
  \<open>attempt_unions uf ps\<close> calls \<open>union\<close> on the pairs \<open>ps\<close> in order, whatever each
  call returns, and collects the returned flags and the final forest.
\<close>

fun attempt_unions :: "UnionFind \<Rightarrow> Pair list \<Rightarrow> (bool list \<times> UnionFind) option" where
  "attempt_unions uf [] = Some ([], uf)"
| "attempt_unions uf (p # ps) =
     (case union_uf uf (pair_i p) (pair_j p) of
        None \<Rightarrow> None
      | Some (flag, uf') \<Rightarrow>
          (case attempt_unions uf' ps of
             None \<Rightarrow> None
           | Some (flags, uf'') \<Rightarrow> Some (flag # flags, uf'')))"

subsection \<open>The budget of part1 and repeated invocations\<close>

text \<open>
  The number of attempted unions of \<open>part1\<close> on \<open>n\<close> points with \<open>p\<close> candidate
  pairs, as the loop condition \<^verbatim>\<open>connections < Math.min(1000, length / 2)\<close> gives it:
  \<^verbatim>\<open>length / 2\<close> is not rounded, so an odd \<open>n\<close> allows \<open>(n + 1) div 2\<close> attempts.
\<close>

definition part1_attempts :: "nat \<Rightarrow> nat \<Rightarrow> nat" where
  "part1_attempts n p = min p (min 1000 ((n + 1) div 2))"


section \<open>The candidate list\<close>

subsection \<open>Sorting\<close>

lemma Array_sort_insert_key:
  fixes f :: "'a \<Rightarrow> int"
  assumes "\<And>a b. (cmp a b \<le> 0) = (f a \<le> f b)"
  shows "Array_sort_insert cmp x ys = insort_key f x ys"
  by (induction ys) (simp_all add: assms)

lemma Array_sort_key:
  fixes f :: "'a \<Rightarrow> int"
  assumes "\<And>a b. (cmp a b \<le> 0) = (f a \<le> f b)"
  shows "Array_sort cmp xs = sort_key f xs"
  by (induction xs) (simp_all add: Array_sort_def Array_sort_insert_key [OF assms])

lemma createSortedPairs_sort_key:
  "createSortedPairs boxes = sort_key pair_d (createSortedPairs_outer boxes 0 [])"
  unfolding createSortedPairs_def by (rule Array_sort_key) simp

lemma Array_sort_descending:
  "Array_sort (\<lambda>a b. int b - int a) xs = rev (sort xs)"
proof -
  have eq: "Array_sort (\<lambda>a b. int b - int a) xs = sort_key (\<lambda>a. - int a) xs"
    by (rule Array_sort_key) simp
  have "sorted (map (\<lambda>a. - int a) (sort_key (\<lambda>a. - int a) xs))"
    by (rule sorted_sort_key)
  then have "sorted (rev (sort_key (\<lambda>a. - int a) xs))"
    by (simp add: sorted_wrt_rev sorted_wrt_map)
  moreover have "mset (rev (sort_key (\<lambda>a. - int a) xs)) = mset xs"
    by simp
  ultimately have "sort xs = rev (sort_key (\<lambda>a. - int a) xs)"
    by (metis properties_for_sort)
  then show ?thesis
    by (simp add: eq)
qed

lemma createSortedPairs_inner_eq:
  "createSortedPairs_inner boxes a b pairs = pairs @ map (mk_pair boxes a) [b..<length boxes]"
proof (induction boxes a b pairs rule: createSortedPairs_inner.induct)
  case (1 boxes i j pairs)
  show ?case
  proof (cases "j < length boxes")
    case True
    then show ?thesis
      using "1" by (subst createSortedPairs_inner.simps) (simp add: upt_conv_Cons mk_pair_def)
  next
    case False
    then show ?thesis by (subst createSortedPairs_inner.simps) simp
  qed
qed

lemma createSortedPairs_outer_eq:
  "createSortedPairs_outer boxes a pairs = pairs @ all_pairs boxes [a..<length boxes]"
proof (induction boxes a pairs rule: createSortedPairs_outer.induct)
  case (1 boxes i pairs)
  show ?case
  proof (cases "i < length boxes")
    case True
    then show ?thesis
      using "1" by (subst createSortedPairs_outer.simps)
        (simp add: upt_conv_Cons [of i] createSortedPairs_inner_eq all_pairs_def)
  next
    case False
    then show ?thesis by (subst createSortedPairs_outer.simps) (simp add: all_pairs_def)
  qed
qed

lemma set_all_pairs:
  "set (all_pairs boxes as) = {mk_pair boxes a b | a b. a \<in> set as \<and> a < b \<and> b < length boxes}"
  by (fastforce simp: all_pairs_def)







lemma createSortedPairs_eq:
  "createSortedPairs boxes = sort_key pair_d (all_pairs boxes [0..<length boxes])"
  by (simp add: createSortedPairs_sort_key createSortedPairs_outer_eq)

lemma set_createSortedPairs:
  "set (createSortedPairs boxes) = {mk_pair boxes a b | a b. a < b \<and> b < length boxes}"
  by (fastforce simp: createSortedPairs_eq set_all_pairs)


lemma createSortedPairs_valid:
  assumes "p \<in> set (createSortedPairs boxes)"
  shows "pair_i p < pair_j p \<and> pair_j p < length boxes"
  using assms by (auto simp: set_createSortedPairs mk_pair_def)


section \<open>The disjoint-set forest\<close>

subsection \<open>Roots along the parent links\<close>

lemma root_of_bound:
  "root_of ps x r \<Longrightarrow> x < length ps \<and> r < length ps \<and> ps ! r = r"
  by (induction rule: root_of.induct) auto

lemma root_of_unique:
  "root_of ps x r \<Longrightarrow> root_of ps x r' \<Longrightarrow> r' = r"
proof (induction arbitrary: r' rule: root_of.induct)
  case (root_self x)
  from root_self.prems root_self.hyps show ?case
    by (cases rule: root_of.cases) auto
next
  case (root_step x r)
  from root_step.prems root_step.hyps(1,2) have "root_of ps (ps ! x) r'"
    by (cases rule: root_of.cases) auto
  then show ?case by (rule root_step.IH)
qed

lemma root_of_root_iff:
  "ps ! r = r \<Longrightarrow> root_of ps r s \<longleftrightarrow> r < length ps \<and> s = r"
  by (auto intro: root_self elim: root_of.cases)

lemma root_of_funpow:
  "root_of ps x r \<Longrightarrow> \<exists>k. ((\<lambda>y. ps ! y) ^^ k) x = r"
proof (induction rule: root_of.induct)
  case (root_self x)
  have "((\<lambda>y. ps ! y) ^^ 0) x = x" by simp
  then show ?case by blast
next
  case (root_step x r)
  then obtain k where "((\<lambda>y. ps ! y) ^^ k) (ps ! x) = r" by blast
  then have "((\<lambda>y. ps ! y) ^^ Suc k) x = r" by (simp add: funpow_swap1)
  then show ?case by blast
qed

text \<open>Path compression: pointing \<open>x\<close> at its own root changes no root.\<close>

lemma root_of_compress:
  assumes "root_of ps x r" and "root_of ps y s"
  shows "root_of (ps[x := r]) y s"
  using assms(2)
proof (induction rule: root_of.induct)
  case (root_self y)
  show ?case
  proof (cases "y = x")
    case True
    then have "r = y" using assms(1) root_self by (simp add: root_of_root_iff)
    then show ?thesis using root_self True by (auto intro: root_of.root_self)
  next
    case False
    then show ?thesis using root_self by (auto intro: root_of.root_self)
  qed
next
  case (root_step y s)
  show ?case
  proof (cases "y = x")
    case True
    have "root_of ps y s" using root_step.hyps by (auto intro: root_of.root_step)
    then have sr: "s = r" using assms(1) True root_of_unique by blast
    have rb: "r < length ps" "ps ! r = r" using assms(1) root_of_bound by blast+
    then have "r \<noteq> x" using root_step.hyps(2) True by auto
    then have "root_of (ps[x := r]) r r" using rb by (auto intro: root_of.root_self)
    moreover have "(ps[x := r]) ! x = r" "r \<noteq> x" "x < length (ps[x := r])"
      using root_step.hyps(1) True \<open>r \<noteq> x\<close> by simp_all
    ultimately have "root_of (ps[x := r]) x r"
      by (metis root_of.root_step)
    then show ?thesis using True sr by simp
  next
    case False
    then have "(ps[x := r]) ! y = ps ! y" by simp
    then show ?thesis
      using root_step.hyps(1,2) root_step.IH by (auto intro: root_of.root_step)
  qed
qed

text \<open>Linking the root \<open>rb\<close> under another root \<open>ra\<close> sends the set of \<open>rb\<close> to \<open>ra\<close>.\<close>

lemma root_of_link:
  assumes "ra < length ps" "ps ! ra = ra" "ps ! rb = rb" "ra \<noteq> rb"
    and "root_of ps y s"
  shows "root_of (ps[rb := ra]) y (if s = rb then ra else s)"
  using assms(5)
proof (induction rule: root_of.induct)
  case (root_self y)
  have ra: "root_of (ps[rb := ra]) ra ra"
    using assms(1,2,4) by (auto intro: root_of.root_self)
  show ?case
  proof (cases "y = rb")
    case True
    then have "(ps[rb := ra]) ! y = ra" "ra \<noteq> y" "y < length (ps[rb := ra])"
      using root_self assms(4) by simp_all
    then have "root_of (ps[rb := ra]) y ra"
      using ra by (metis root_of.root_step)
    then show ?thesis using True by simp
  next
    case False
    then show ?thesis using root_self by (auto intro: root_of.root_self)
  qed
next
  case (root_step y s)
  have "y \<noteq> rb" using root_step.hyps(2) assms(3) by auto
  then have "(ps[rb := ra]) ! y = ps ! y" by simp
  then show ?case
    using root_step.hyps(1,2) root_step.IH by (auto intro: root_of.root_step)
qed

subsection \<open>find\<close>

text \<open>
  Where the links from \<open>x\<close> arrive at a root, \<open>find\<close> returns that root; it leaves the
  sizes alone, and every index keeps its root.
\<close>

lemma find_uf_root_of:
  assumes "root_of ps x r" and "ps = parent uf"
  shows "\<exists>uf'. find_uf uf x = Some (r, uf')
           \<and> size_uf uf' = size_uf uf
           \<and> length (parent uf') = length (parent uf)
           \<and> (\<forall>y s. root_of (parent uf) y s \<longrightarrow> root_of (parent uf') y s)
           \<and> (\<forall>y. parent uf' ! y = parent uf ! y \<or> root_of (parent uf) y (parent uf' ! y))"
  using assms
proof (induction rule: root_of.induct)
  case (root_self x)
  then have "find_uf uf x = Some (x, uf)"
    by (subst find_uf.simps) simp
  then show ?case by simp
next
  case (root_step x r)
  then obtain uf1 where f: "find_uf uf (parent uf ! x) = Some (r, uf1)"
    and s: "size_uf uf1 = size_uf uf"
    and l: "length (parent uf1) = length (parent uf)"
    and k: "\<forall>y s. root_of (parent uf) y s \<longrightarrow> root_of (parent uf1) y s"
    and c: "\<forall>y. parent uf1 ! y = parent uf ! y \<or> root_of (parent uf) y (parent uf1 ! y)"
    by auto
  let ?uf2 = "uf1\<lparr>parent := (parent uf1)[x := r]\<rparr>"
  have x: "x < length (parent uf)" "parent uf ! x \<noteq> x"
    using root_step.hyps root_step.prems by simp_all
  have "find_uf uf x = Some (r, ?uf2)"
    using x f l by (subst find_uf.simps) (simp add: Let_def)
  moreover have xr: "root_of (parent uf) x r"
    using root_step.hyps root_step.prems by (auto intro: root_of.root_step)
  then have "root_of (parent uf1) x r" using k by blast
  then have "\<forall>y s. root_of (parent uf) y s \<longrightarrow> root_of (parent ?uf2) y s"
    using k by (simp add: root_of_compress)
  moreover have "parent ?uf2 ! y = parent uf ! y \<or> root_of (parent uf) y (parent ?uf2 ! y)" for y
  proof (cases "y = x")
    case True
    then show ?thesis using xr x(1) l by simp
  next
    case False
    then show ?thesis using c by simp
  qed
  ultimately show ?case using s l by simp
qed

subsection \<open>The invariant of the forest\<close>

lemma uf_inv_new: "uf_inv (UnionFind_new n)"
proof -
  have r: "root_of [0..<n] x s \<longleftrightarrow> x < n \<and> s = x" for x s
    by (cases "x < n") (auto simp: root_of_root_iff dest: root_of_bound)
  have "{x. root_of [0..<n] x s} = {s}" if "s < n" for s
    using that by (auto simp: r)
  then show ?thesis
    by (auto simp: uf_inv_def UnionFind_new_def r)
qed

lemma uf_inv_root:
  "uf_inv uf \<Longrightarrow> x < length (parent uf) \<Longrightarrow> \<exists>r. root_of (parent uf) x r"
  by (simp add: uf_inv_def)

lemma uf_inv_same_roots:
  assumes "uf_inv uf" "size_uf uf' = size_uf uf" "length (parent uf') = length (parent uf)"
    and "\<forall>y s. root_of (parent uf') y s = root_of (parent uf) y s"
  shows "uf_inv uf'"
proof -
  have "size_uf uf' ! r = card {x. root_of (parent uf') x r}"
    if "r < length (parent uf')" "parent uf' ! r = r" for r
  proof -
    have "root_of (parent uf') r r" using that by (rule root_self)
    then have "root_of (parent uf) r r" using assms(4) by simp
    then have "parent uf ! r = r" "r < length (parent uf)"
      using root_of_bound by blast+
    then have "size_uf uf ! r = card {x. root_of (parent uf) x r}"
      using assms(1) by (simp add: uf_inv_def)
    then show ?thesis using assms(2,4) by simp
  qed
  then show ?thesis
    using assms by (simp add: uf_inv_def)
qed

lemma find_uf_inv:
  assumes "uf_inv uf" "x < length (parent uf)"
  shows "\<exists>r uf'. find_uf uf x = Some (r, uf') \<and> root_of (parent uf) x r \<and> uf_inv uf'
           \<and> size_uf uf' = size_uf uf
           \<and> length (parent uf') = length (parent uf)
           \<and> (\<forall>y s. root_of (parent uf') y s = root_of (parent uf) y s)
           \<and> (\<forall>y. parent uf' ! y = parent uf ! y \<or> root_of (parent uf) y (parent uf' ! y))"
proof -
  obtain r where r: "root_of (parent uf) x r"
    using assms uf_inv_root by blast
  then obtain uf' where f: "find_uf uf x = Some (r, uf')"
    and s: "size_uf uf' = size_uf uf"
    and l: "length (parent uf') = length (parent uf)"
    and k: "\<forall>y s. root_of (parent uf) y s \<longrightarrow> root_of (parent uf') y s"
    and c: "\<forall>y. parent uf' ! y = parent uf ! y \<or> root_of (parent uf) y (parent uf' ! y)"
    using find_uf_root_of [OF r refl] by blast
  have "root_of (parent uf) y s" if "root_of (parent uf') y s" for y s
  proof -
    have "y < length (parent uf)" using that l root_of_bound by fastforce
    then obtain s0 where s0: "root_of (parent uf) y s0"
      using assms(1) uf_inv_root by blast
    then have "root_of (parent uf') y s0" using k by blast
    then have "s = s0" using that root_of_unique by blast
    then show ?thesis using s0 by simp
  qed
  then have e: "\<forall>y s. root_of (parent uf') y s = root_of (parent uf) y s"
    using k by blast
  then have "uf_inv uf'"
    using assms(1) s l by (simp add: uf_inv_same_roots)
  then show ?thesis using f r s l e c by blast
qed

lemma find_root_iff:
  assumes "uf_inv uf" "x < length (parent uf)"
  shows "find_root uf x = Some r \<longleftrightarrow> root_of (parent uf) x r"
proof -
  obtain r0 uf' where "find_uf uf x = Some (r0, uf')" "root_of (parent uf) x r0"
    using find_uf_inv [OF assms] by blast
  then show ?thesis
    by (auto simp: find_root_def dest: root_of_unique)
qed

lemma uf_inv_size_card:
  assumes "uf_inv uf" "root_of (parent uf) x r"
  shows "size_uf uf ! r = card {y. y < length (parent uf) \<and> find_root uf y = Some r}"
proof -
  have "{y. y < length (parent uf) \<and> find_root uf y = Some r} = {y. root_of (parent uf) y r}"
    using assms(1) root_of_bound by (auto simp: find_root_iff)
  moreover have "r < length (parent uf)" "parent uf ! r = r"
    using assms(2) root_of_bound by blast+
  ultimately show ?thesis using assms(1) by (simp add: uf_inv_def)
qed

subsection \<open>union\<close>

lemma union_uf_same:
  assumes "uf_inv uf" "a < length (parent uf)" "b < length (parent uf)"
    and "root_of (parent uf) a r" "root_of (parent uf) b r"
  shows "\<exists>uf1 uf2. find_uf uf a = Some (r, uf1) \<and> find_uf uf1 b = Some (r, uf2)
           \<and> union_uf uf a b = Some (False, uf2) \<and> uf_inv uf2
           \<and> size_uf uf2 = size_uf uf
           \<and> length (parent uf2) = length (parent uf)
           \<and> (\<forall>y s. root_of (parent uf2) y s = root_of (parent uf) y s)
           \<and> (\<forall>y. parent uf2 ! y = parent uf ! y \<or> root_of (parent uf) y (parent uf2 ! y))"
proof -
  obtain ra uf1 where f1: "find_uf uf a = Some (ra, uf1)" "root_of (parent uf) a ra"
    "uf_inv uf1" "size_uf uf1 = size_uf uf" "length (parent uf1) = length (parent uf)"
    "\<forall>y s. root_of (parent uf1) y s = root_of (parent uf) y s"
    "\<forall>y. parent uf1 ! y = parent uf ! y \<or> root_of (parent uf) y (parent uf1 ! y)"
    using find_uf_inv [OF assms(1,2)] by blast
  have ra: "ra = r" using f1(2) assms(4) root_of_unique by blast
  have "b < length (parent uf1)" using assms(3) f1(5) by simp
  then obtain rb uf2 where f2: "find_uf uf1 b = Some (rb, uf2)" "root_of (parent uf1) b rb"
    "uf_inv uf2" "size_uf uf2 = size_uf uf1" "length (parent uf2) = length (parent uf1)"
    "\<forall>y s. root_of (parent uf2) y s = root_of (parent uf1) y s"
    "\<forall>y. parent uf2 ! y = parent uf1 ! y \<or> root_of (parent uf1) y (parent uf2 ! y)"
    using find_uf_inv [OF f1(3)] by blast
  have rb: "rb = r" using f2(2) f1(6) assms(5) root_of_unique by blast
  have u: "union_uf uf a b = Some (False, uf2)"
    using f1(1) f2(1) ra rb by (simp add: union_uf_def)
  have c: "parent uf2 ! y = parent uf ! y \<or> root_of (parent uf) y (parent uf2 ! y)" for y
    using f1(6,7) f2(7) by metis
  show ?thesis
    using f1(1,4,5,6) f2(1,3,4,5,6) ra rb u c by auto
qed

lemma link_inv:
  assumes inv: "uf_inv uf"
    and lg: "lg < length (parent uf)" "parent uf ! lg = lg"
    and sm: "sm < length (parent uf)" "parent uf ! sm = sm"
    and ne: "lg \<noteq> sm"
    and uf': "uf' = \<lparr>parent = (parent uf)[sm := lg],
                     size_uf = (size_uf uf)[lg := size_uf uf ! lg + size_uf uf ! sm]\<rparr>"
  shows "uf_inv uf'"
    and "\<forall>y s. root_of (parent uf') y s \<longleftrightarrow>
           (\<exists>s0. root_of (parent uf) y s0 \<and> s = (if s0 = sm then lg else s0))"
proof -
  let ?ps = "parent uf" and ?ps' = "(parent uf)[sm := lg]"
  have p': "parent uf' = ?ps'" and len: "length (parent uf') = length ?ps"
    using uf' by simp_all
  have fwd: "root_of ?ps' y (if s = sm then lg else s)" if "root_of ?ps y s" for y s
    using root_of_link [OF lg sm(2) ne that] .
  have bwd: "\<exists>s0. root_of ?ps y s0 \<and> s = (if s0 = sm then lg else s0)"
    if "root_of ?ps' y s" for y s
  proof -
    have "y < length ?ps" using that root_of_bound by fastforce
    then obtain s0 where s0: "root_of ?ps y s0"
      using inv uf_inv_root by blast
    then have "s = (if s0 = sm then lg else s0)"
      using fwd that root_of_unique by blast
    then show ?thesis using s0 by blast
  qed
  show roots: "\<forall>y s. root_of (parent uf') y s \<longleftrightarrow>
           (\<exists>s0. root_of (parent uf) y s0 \<and> s = (if s0 = sm then lg else s0))"
    unfolding p' using fwd bwd by blast
  have total: "\<exists>r. root_of (parent uf') x r" if x: "x < length (parent uf')" for x
  proof -
    have "x < length ?ps" using x len by simp
    then obtain s0 where "root_of ?ps x s0"
      using inv uf_inv_root by blast
    then show ?thesis using fwd p' by metis
  qed
  have fin: "finite {x. root_of ?ps x r}" for r
    by (rule finite_subset [of _ "{..<length ?ps}"]) (auto dest: root_of_bound)
  have sz: "size_uf uf ! r = card {x. root_of ?ps x r}"
    if "r < length ?ps" "?ps ! r = r" for r
    using that inv by (simp add: uf_inv_def)
  have lens: "length (size_uf uf) = length ?ps"
    using inv by (simp add: uf_inv_def)
  have size: "size_uf uf' ! r = card {x. root_of (parent uf') x r}"
    if r: "r < length (parent uf')" "parent uf' ! r = r" for r
  proof -
    have rsm: "r \<noteq> sm" using r sm(1) ne p' by auto
    then have rr: "r < length ?ps" "?ps ! r = r" using r p' by simp_all
    show ?thesis
    proof (cases "r = lg")
      case True
      have "{x. root_of (parent uf') x lg} = {x. root_of ?ps x lg} \<union> {x. root_of ?ps x sm}"
        using roots ne by auto
      moreover have "{x. root_of ?ps x lg} \<inter> {x. root_of ?ps x sm} = {}"
        using ne root_of_unique by blast
      ultimately have "card {x. root_of (parent uf') x lg} =
                       card {x. root_of ?ps x lg} + card {x. root_of ?ps x sm}"
        using fin by (simp add: card_Un_disjoint)
      then show ?thesis
        using True sz [OF lg] sz [OF sm] lg(1) lens uf' by simp
    next
      case False
      have "{x. root_of (parent uf') x r} = {x. root_of ?ps x r}"
        using roots rsm False by auto
      then show ?thesis
        using False sz [OF rr] uf' by simp
    qed
  qed
  show "uf_inv uf'"
    unfolding uf_inv_def using total size lens uf' by simp
qed

lemma union_uf_merge:
  assumes "uf_inv uf" "a < length (parent uf)" "b < length (parent uf)"
    and "root_of (parent uf) a ra" "root_of (parent uf) b rb" "ra \<noteq> rb"
  shows "\<exists>uf1 uf2 uf'. find_uf uf a = Some (ra, uf1) \<and> find_uf uf1 b = Some (rb, uf2)
           \<and> union_uf uf a b = Some (True, uf') \<and> uf_inv uf'
           \<and> uf' = \<lparr>parent = (parent uf2)[smaller_root uf ra rb := larger_root uf ra rb],
                     size_uf = (size_uf uf)[larger_root uf ra rb :=
                                  size_uf uf ! larger_root uf ra rb
                                  + size_uf uf ! smaller_root uf ra rb]\<rparr>
           \<and> length (parent uf') = length (parent uf)
           \<and> (\<forall>y s. root_of (parent uf2) y s = root_of (parent uf) y s)
           \<and> (\<forall>y s. root_of (parent uf') y s \<longleftrightarrow>
                 (\<exists>s0. root_of (parent uf) y s0
                    \<and> s = (if s0 = smaller_root uf ra rb then larger_root uf ra rb else s0)))"
proof -
  obtain ra' uf1 where f1: "find_uf uf a = Some (ra', uf1)" "root_of (parent uf) a ra'"
    "uf_inv uf1" "size_uf uf1 = size_uf uf" "length (parent uf1) = length (parent uf)"
    "\<forall>y s. root_of (parent uf1) y s = root_of (parent uf) y s"
    using find_uf_inv [OF assms(1,2)] by blast
  have ra: "ra' = ra" using f1(2) assms(4) root_of_unique by blast
  have "b < length (parent uf1)" using assms(3) f1(5) by simp
  then obtain rb' uf2 where f2: "find_uf uf1 b = Some (rb', uf2)" "root_of (parent uf1) b rb'"
    "uf_inv uf2" "size_uf uf2 = size_uf uf1" "length (parent uf2) = length (parent uf1)"
    "\<forall>y s. root_of (parent uf2) y s = root_of (parent uf1) y s"
    using find_uf_inv [OF f1(3)] by blast
  have rb: "rb' = rb" using f2(2) f1(6) assms(5) root_of_unique by blast
  let ?lg = "larger_root uf ra rb" and ?sm = "smaller_root uf ra rb"
  let ?uf' = "\<lparr>parent = (parent uf2)[?sm := ?lg],
               size_uf = (size_uf uf2)[?lg := size_uf uf2 ! ?lg + size_uf uf2 ! ?sm]\<rparr>"
  have sz: "size_uf uf2 = size_uf uf" using f1(4) f2(4) by simp
  have e: "\<forall>y s. root_of (parent uf2) y s = root_of (parent uf) y s"
    using f1(6) f2(6) by simp
  have u: "union_uf uf a b = Some (True, ?uf')"
    using f1(1) f2(1) ra rb assms(6) sz
    by (simp add: union_uf_def larger_root_def smaller_root_def)
  have roots2: "ra < length (parent uf2)" "parent uf2 ! ra = ra"
    "rb < length (parent uf2)" "parent uf2 ! rb = rb"
    using assms(4,5) e root_of_bound by blast+
  then have lg: "?lg < length (parent uf2)" "parent uf2 ! ?lg = ?lg"
    and sm: "?sm < length (parent uf2)" "parent uf2 ! ?sm = ?sm"
    by (simp_all add: larger_root_def smaller_root_def)
  have ne: "?lg \<noteq> ?sm"
    using assms(6) by (simp add: larger_root_def smaller_root_def)
  have i: "uf_inv ?uf'"
    by (rule link_inv(1) [OF f2(3) lg sm ne]) simp
  have r: "\<forall>y s. root_of (parent ?uf') y s \<longleftrightarrow>
           (\<exists>s0. root_of (parent uf2) y s0 \<and> s = (if s0 = ?sm then ?lg else s0))"
    by (rule link_inv(2) [OF f2(3) lg sm ne]) simp
  have l: "length (parent ?uf') = length (parent uf)"
    using f1(5) f2(5) by simp
  show ?thesis
    using f1(1) f2(1) ra rb u i r l e sz by (metis (no_types, lifting))
qed

subsection \<open>The contract of union and find\<close>

text \<open>
  C5. On a well-formed forest and valid indices \<open>a\<close>, \<open>b\<close> with roots \<open>ra\<close>, \<open>rb\<close>:
  \<open>union\<close> returns false and keeps every index's root when \<open>ra = rb\<close>; otherwise it
  returns true, the root with the strictly smaller size is re-parented under the other
  (\<open>rb\<close> under \<open>ra\<close> when the sizes are equal), the new root's size grows by the
  other's, and exactly the indices of the re-parented root's set change their root.
\<close>

theorem union_uf_by_size:
  assumes "uf_inv uf" "a < length (parent uf)" "b < length (parent uf)"
  shows "\<exists>ra rb flag uf'.
           find_root uf a = Some ra \<and> find_root uf b = Some rb
           \<and> size_uf uf ! ra = card {x. x < length (parent uf) \<and> find_root uf x = Some ra}
           \<and> size_uf uf ! rb = card {x. x < length (parent uf) \<and> find_root uf x = Some rb}
           \<and> union_uf uf a b = Some (flag, uf')
           \<and> flag = (ra \<noteq> rb)
           \<and> (if ra = rb then
                 size_uf uf' = size_uf uf
                 \<and> (\<forall>x<length (parent uf). find_root uf' x = find_root uf x)
               else
                 smaller_root uf ra rb =
                   (if size_uf uf ! ra < size_uf uf ! rb then ra else rb)
                 \<and> larger_root uf ra rb =
                   (if size_uf uf ! ra < size_uf uf ! rb then rb else ra)
                 \<and> parent uf' ! smaller_root uf ra rb = larger_root uf ra rb
                 \<and> parent uf' ! larger_root uf ra rb = larger_root uf ra rb
                 \<and> size_uf uf' =
                     (size_uf uf)[larger_root uf ra rb :=
                        size_uf uf ! larger_root uf ra rb + size_uf uf ! smaller_root uf ra rb]
                 \<and> (\<forall>x<length (parent uf).
                       find_root uf' x =
                         (if find_root uf x = Some (smaller_root uf ra rb)
                          then Some (larger_root uf ra rb) else find_root uf x)))"
proof -
  obtain ra where ra: "root_of (parent uf) a ra" using assms uf_inv_root by blast
  obtain rb where rb: "root_of (parent uf) b rb" using assms uf_inv_root by blast
  have fa: "find_root uf a = Some ra" and fb: "find_root uf b = Some rb"
    using assms ra rb by (simp_all add: find_root_iff)
  have sa: "size_uf uf ! ra = card {x. x < length (parent uf) \<and> find_root uf x = Some ra}"
    and sb: "size_uf uf ! rb = card {x. x < length (parent uf) \<and> find_root uf x = Some rb}"
    using uf_inv_size_card [OF assms(1)] ra rb by blast+
  show ?thesis
  proof (cases "ra = rb")
    case True
    then obtain uf2 where u: "union_uf uf a b = Some (False, uf2)" and i: "uf_inv uf2"
      and s: "size_uf uf2 = size_uf uf" and l: "length (parent uf2) = length (parent uf)"
      and e: "\<forall>y s. root_of (parent uf2) y s = root_of (parent uf) y s"
      using union_uf_same [OF assms ra] rb by blast
    have "find_root uf2 x = find_root uf x" if x: "x < length (parent uf)" for x
    proof -
      obtain r where r: "root_of (parent uf) x r" using x assms(1) uf_inv_root by blast
      then have "find_root uf x = Some r" using x assms(1) by (simp add: find_root_iff)
      moreover have "find_root uf2 x = Some r" using x r i l e by (simp add: find_root_iff)
      ultimately show ?thesis by simp
    qed
    then show ?thesis using True fa fb sa u s by auto
  next
    case False
    let ?lg = "larger_root uf ra rb" and ?sm = "smaller_root uf ra rb"
    from union_uf_merge [OF assms ra rb False]
    obtain uf1 uf2 uf' where all:
      "find_uf uf a = Some (ra, uf1) \<and> find_uf uf1 b = Some (rb, uf2)
       \<and> union_uf uf a b = Some (True, uf') \<and> uf_inv uf'
       \<and> uf' = \<lparr>parent = (parent uf2)[?sm := ?lg],
                 size_uf = (size_uf uf)[?lg := size_uf uf ! ?lg + size_uf uf ! ?sm]\<rparr>
       \<and> length (parent uf') = length (parent uf)
       \<and> (\<forall>y s. root_of (parent uf2) y s = root_of (parent uf) y s)
       \<and> (\<forall>y s. root_of (parent uf') y s \<longleftrightarrow>
             (\<exists>s0. root_of (parent uf) y s0 \<and> s = (if s0 = ?sm then ?lg else s0)))"
      by (elim exE) (rule that)
    then have u: "union_uf uf a b = Some (True, uf')" and i: "uf_inv uf'"
      and d: "uf' = \<lparr>parent = (parent uf2)[?sm := ?lg],
                     size_uf = (size_uf uf)[?lg := size_uf uf ! ?lg + size_uf uf ! ?sm]\<rparr>"
      and l: "length (parent uf') = length (parent uf)"
      and e2: "\<forall>y s. root_of (parent uf2) y s = root_of (parent uf) y s"
      and e: "\<forall>y s. root_of (parent uf') y s \<longleftrightarrow>
                 (\<exists>s0. root_of (parent uf) y s0 \<and> s = (if s0 = ?sm then ?lg else s0))"
      by blast+
    have b2: "ra < length (parent uf2)" "parent uf2 ! ra = ra"
      "rb < length (parent uf2)" "parent uf2 ! rb = rb"
      using ra rb e2 root_of_bound by blast+
    have ne: "?lg \<noteq> ?sm" using False by (simp add: larger_root_def smaller_root_def)
    have p1: "parent uf' ! ?sm = ?lg"
      using d b2 by (simp add: larger_root_def smaller_root_def)
    have p2: "parent uf' ! ?lg = ?lg"
      using d b2 ne by (simp add: larger_root_def smaller_root_def)
    have "find_root uf' x = (if find_root uf x = Some ?sm then Some ?lg else find_root uf x)"
      if x: "x < length (parent uf)" for x
    proof -
      obtain r where r: "root_of (parent uf) x r" using x assms(1) uf_inv_root by blast
      then have "find_root uf x = Some r" using x assms(1) by (simp add: find_root_iff)
      moreover have "root_of (parent uf') x (if r = ?sm then ?lg else r)"
        using e r by blast
      then have "find_root uf' x = Some (if r = ?sm then ?lg else r)"
        using x i l by (simp add: find_root_iff)
      ultimately show ?thesis by simp
    qed
    then show ?thesis
      using False fa fb sa sb u p1 p2 d by (simp add: larger_root_def smaller_root_def)
  qed
qed

theorem union_uf_by_size_witness:
  "uf_inv (UnionFind_new 3)
   \<and> find_root (UnionFind_new 3) 0 = Some 0 \<and> find_root (UnionFind_new 3) 1 = Some 1
   \<and> union_uf (UnionFind_new 3) 0 1
       = Some (True, \<lparr>parent = [0, 0, 2], size_uf = [2, 1, 1]\<rparr>)
   \<and> (\<exists>ra rb flag uf'.
           find_root (UnionFind_new 3) 0 = Some ra \<and> find_root (UnionFind_new 3) 1 = Some rb
           \<and> union_uf (UnionFind_new 3) 0 1 = Some (flag, uf')
           \<and> flag = (ra \<noteq> rb)
           \<and> parent uf' ! smaller_root (UnionFind_new 3) ra rb = larger_root (UnionFind_new 3) ra rb)"
proof -
  have i: "uf_inv (UnionFind_new 3)" by (rule uf_inv_new)
  have a: "0 < length (parent (UnionFind_new 3))" and b: "1 < length (parent (UnionFind_new 3))"
    by (simp_all add: UnionFind_new_def)
  have f0: "find_root (UnionFind_new 3) 0 = Some 0" by code_simp
  have f1: "find_root (UnionFind_new 3) 1 = Some 1" by code_simp
  have u: "union_uf (UnionFind_new 3) 0 1
       = Some (True, \<lparr>parent = [0, 0, 2], size_uf = [2, 1, 1]\<rparr>)" by code_simp
  from union_uf_by_size [OF i a b] f0 f1 u
  have "\<exists>ra rb flag uf'.
           find_root (UnionFind_new 3) 0 = Some ra \<and> find_root (UnionFind_new 3) 1 = Some rb
           \<and> union_uf (UnionFind_new 3) 0 1 = Some (flag, uf')
           \<and> flag = (ra \<noteq> rb)
           \<and> parent uf' ! smaller_root (UnionFind_new 3) ra rb = larger_root (UnionFind_new 3) ra rb"
    by auto
  then show ?thesis using i f0 f1 u by blast
qed

subsection \<open>Sequences of calls\<close>

lemma union_uf_inv:
  assumes "uf_inv uf" "a < length (parent uf)" "b < length (parent uf)"
  shows "\<exists>flag uf'. union_uf uf a b = Some (flag, uf') \<and> uf_inv uf'
           \<and> length (parent uf') = length (parent uf)"
proof -
  obtain ra where ra: "root_of (parent uf) a ra" using assms uf_inv_root by blast
  obtain rb where rb: "root_of (parent uf) b rb" using assms uf_inv_root by blast
  show ?thesis
  proof (cases "ra = rb")
    case True
    then show ?thesis using union_uf_same [OF assms ra] rb by blast
  next
    case False
    from union_uf_merge [OF assms ra rb False]
    show ?thesis by (elim exE conjE) (intro exI conjI, assumption+)
  qed
qed

lemma run_call_inv:
  assumes "uf_inv uf" "call_valid (length (parent uf)) c"
  shows "\<exists>uf'. run_call uf c = Some uf' \<and> uf_inv uf'
           \<and> length (parent uf') = length (parent uf)"
proof (cases c)
  case (Find x)
  then show ?thesis using find_uf_inv [OF assms(1), of x] assms(2) by auto
next
  case (Union a b)
  then show ?thesis using union_uf_inv [OF assms(1), of a b] assms(2) by auto
qed

lemma run_calls_inv:
  assumes "uf_inv uf" "list_all (call_valid (length (parent uf))) cs"
  shows "\<exists>uf'. run_calls uf cs = Some uf' \<and> uf_inv uf'
           \<and> length (parent uf') = length (parent uf)"
  using assms
proof (induction cs arbitrary: uf)
  case Nil
  then show ?case by simp
next
  case (Cons c cs)
  then obtain uf1 where c: "run_call uf c = Some uf1" "uf_inv uf1"
    "length (parent uf1) = length (parent uf)"
    using run_call_inv [of uf c] by auto
  then have "\<exists>uf'. run_calls uf1 cs = Some uf' \<and> uf_inv uf'
           \<and> length (parent uf') = length (parent uf1)"
    using Cons.IH [of uf1] Cons.prems(2) by simp
  then show ?case using c by auto
qed

lemma uf_inv_properties:
  assumes "uf_inv uf" "n = length (parent uf)"
  shows "length (size_uf uf) = n
     \<and> (\<forall>x<n. \<exists>k. ((\<lambda>y. parent uf ! y) ^^ k) x < n
            \<and> parent uf ! (((\<lambda>y. parent uf ! y) ^^ k) x) = ((\<lambda>y. parent uf ! y) ^^ k) x)
     \<and> (\<forall>x<n. \<exists>!r. r < n \<and> parent uf ! r = r \<and> find_root uf x = Some r)
     \<and> (\<forall>x<n. \<exists>r uf1 uf2. find_uf uf x = Some (r, uf1) \<and> find_uf uf1 x = Some (r, uf2))
     \<and> (\<forall>r<n. parent uf ! r = r \<longrightarrow>
            size_uf uf ! r = card {x. x < n \<and> find_root uf x = Some r})"
proof -
  have len: "length (size_uf uf) = n"
    using assms by (simp add: uf_inv_def)
  have steps: "\<exists>k. ((\<lambda>y. parent uf ! y) ^^ k) x < n
      \<and> parent uf ! (((\<lambda>y. parent uf ! y) ^^ k) x) = ((\<lambda>y. parent uf ! y) ^^ k) x"
    if x: "x < n" for x
  proof -
    obtain r where r: "root_of (parent uf) x r" using x assms uf_inv_root by blast
    then obtain k where "((\<lambda>y. parent uf ! y) ^^ k) x = r" using root_of_funpow by blast
    then show ?thesis using r assms(2) root_of_bound by blast
  qed
  have one: "\<exists>!r. r < n \<and> parent uf ! r = r \<and> find_root uf x = Some r" if x: "x < n" for x
  proof -
    obtain r where r: "root_of (parent uf) x r" using x assms uf_inv_root by blast
    then have "r < n \<and> parent uf ! r = r \<and> find_root uf x = Some r"
      using x assms root_of_bound by (simp add: find_root_iff)
    then show ?thesis by auto
  qed
  have idem: "\<exists>r uf1 uf2. find_uf uf x = Some (r, uf1) \<and> find_uf uf1 x = Some (r, uf2)"
    if x: "x < n" for x
  proof -
    have "x < length (parent uf)" using x assms(2) by simp
    from find_uf_inv [OF assms(1) this]
    obtain r uf1 where f: "find_uf uf x = Some (r, uf1)" and r: "root_of (parent uf1) x r"
      by blast
    then obtain uf2 where "find_uf uf1 x = Some (r, uf2)"
      using find_uf_root_of [OF r refl] by blast
    then show ?thesis using f by blast
  qed
  have size: "size_uf uf ! r = card {x. x < n \<and> find_root uf x = Some r}"
    if r: "r < n" "parent uf ! r = r" for r
  proof -
    have "{x. x < n \<and> find_root uf x = Some r} = {x. root_of (parent uf) x r}"
      using assms root_of_bound by (auto simp: find_root_iff)
    then show ?thesis using r assms by (simp add: uf_inv_def)
  qed
  show ?thesis using len steps one idem size by blast
qed

text \<open>
  C6. From \<open>n\<close> singleton sets, every sequence of \<open>find\<close> and \<open>union\<close> calls on valid
  indices returns, and in the forest it leaves: from every index the parent links
  arrive at a self-parented index after finitely many steps; every index has exactly
  one root as its \<open>find\<close> result; a second \<open>find\<close> returns the root of the first; and
  the size recorded at a root is the number of indices whose \<open>find\<close> result it is.
\<close>

theorem forest_invariant:
  assumes "list_all (call_valid n) cs"
  shows "\<exists>uf. run_calls (UnionFind_new n) cs = Some uf
     \<and> length (parent uf) = n \<and> length (size_uf uf) = n
     \<and> (\<forall>x<n. \<exists>k. ((\<lambda>y. parent uf ! y) ^^ k) x < n
            \<and> parent uf ! (((\<lambda>y. parent uf ! y) ^^ k) x) = ((\<lambda>y. parent uf ! y) ^^ k) x)
     \<and> (\<forall>x<n. \<exists>!r. r < n \<and> parent uf ! r = r \<and> find_root uf x = Some r)
     \<and> (\<forall>x<n. \<exists>r uf1 uf2. find_uf uf x = Some (r, uf1) \<and> find_uf uf1 x = Some (r, uf2))
     \<and> (\<forall>r<n. parent uf ! r = r \<longrightarrow>
            size_uf uf ! r = card {x. x < n \<and> find_root uf x = Some r})"
proof -
  have n: "length (parent (UnionFind_new n)) = n"
    by (simp add: UnionFind_new_def)
  then obtain uf where uf: "run_calls (UnionFind_new n) cs = Some uf" "uf_inv uf"
    "length (parent uf) = n"
    using run_calls_inv [OF uf_inv_new, of n cs] assms by auto
  show ?thesis
    using uf(1,3) uf_inv_properties [OF uf(2), of n] by simp
qed

theorem forest_invariant_witness:
  "list_all (call_valid 4) [Union 0 1, Union 2 3, Union 1 3, Find 3]
   \<and> run_calls (UnionFind_new 4) [Union 0 1, Union 2 3, Union 1 3, Find 3]
       = Some \<lparr>parent = [0, 0, 0, 0], size_uf = [4, 1, 2, 1]\<rparr>
   \<and> (\<exists>uf. run_calls (UnionFind_new 4) [Union 0 1, Union 2 3, Union 1 3, Find 3] = Some uf
        \<and> (\<forall>x<4. \<exists>!r. r < 4 \<and> parent uf ! r = r \<and> find_root uf x = Some r)
        \<and> (\<forall>x<4. \<exists>r uf1 uf2. find_uf uf x = Some (r, uf1) \<and> find_uf uf1 x = Some (r, uf2))
        \<and> (\<forall>r<4. parent uf ! r = r \<longrightarrow>
               size_uf uf ! r = card {x. x < 4 \<and> find_root uf x = Some r}))"
proof -
  have v: "list_all (call_valid 4) [Union 0 1, Union 2 3, Union 1 3, Find 3]"
    by simp
  have r: "run_calls (UnionFind_new 4) [Union 0 1, Union 2 3, Union 1 3, Find 3]
       = Some \<lparr>parent = [0, 0, 0, 0], size_uf = [4, 1, 2, 1]\<rparr>"
    by code_simp
  from forest_invariant [OF v]
  have "\<exists>uf. run_calls (UnionFind_new 4) [Union 0 1, Union 2 3, Union 1 3, Find 3] = Some uf
        \<and> (\<forall>x<4. \<exists>!r. r < 4 \<and> parent uf ! r = r \<and> find_root uf x = Some r)
        \<and> (\<forall>x<4. \<exists>r uf1 uf2. find_uf uf x = Some (r, uf1) \<and> find_uf uf1 x = Some (r, uf2))
        \<and> (\<forall>r<4. parent uf ! r = r \<longrightarrow>
               size_uf uf ! r = card {x. x < 4 \<and> find_root uf x = Some r})"
    by (elim exE conjE) (rule exI, intro conjI, assumption+)
  then show ?thesis using v r by blast
qed

text \<open>
  C8. On a well-formed forest, when \<open>a\<close> and \<open>b\<close> have the same \<open>find\<close> result,
  \<open>union(a, b)\<close> returns false and the forest it leaves is the one its two \<open>find\<close>
  calls leave: the sizes are untouched, and a parent pointer either keeps its value or
  points at the root of its index.
\<close>

theorem union_uf_same_set_noop:
  assumes "uf_inv uf" "a < length (parent uf)" "b < length (parent uf)"
    and "find_root uf a = find_root uf b"
  shows "\<exists>r uf1 uf2. find_uf uf a = Some (r, uf1) \<and> find_uf uf1 b = Some (r, uf2)
           \<and> union_uf uf a b = Some (False, uf2)
           \<and> size_uf uf2 = size_uf uf
           \<and> length (parent uf2) = length (parent uf)
           \<and> (\<forall>x<length (parent uf).
                 parent uf2 ! x = parent uf ! x \<or> find_root uf x = Some (parent uf2 ! x))
           \<and> (\<forall>x<length (parent uf). find_root uf2 x = find_root uf x)"
proof -
  obtain r where ra: "root_of (parent uf) a r" using assms uf_inv_root by blast
  then have "find_root uf a = Some r" using assms(1,2) by (simp add: find_root_iff)
  then have "find_root uf b = Some r" using assms(4) by simp
  then have rb: "root_of (parent uf) b r" using assms(1,3) by (simp add: find_root_iff)
  from union_uf_same [OF assms(1-3) ra rb]
  obtain uf1 uf2 where f: "find_uf uf a = Some (r, uf1)" "find_uf uf1 b = Some (r, uf2)"
    and u: "union_uf uf a b = Some (False, uf2)" and i: "uf_inv uf2"
    and s: "size_uf uf2 = size_uf uf" and l: "length (parent uf2) = length (parent uf)"
    and e: "\<forall>y s. root_of (parent uf2) y s = root_of (parent uf) y s"
    and c: "\<forall>y. parent uf2 ! y = parent uf ! y \<or> root_of (parent uf) y (parent uf2 ! y)"
    by blast
  have p: "parent uf2 ! x = parent uf ! x \<or> find_root uf x = Some (parent uf2 ! x)"
    if x: "x < length (parent uf)" for x
    using c x assms(1) by (simp add: find_root_iff)
  have q: "find_root uf2 x = find_root uf x" if x: "x < length (parent uf)" for x
  proof -
    obtain t where t: "root_of (parent uf) x t" using x assms(1) uf_inv_root by blast
    then have "find_root uf x = Some t" using x assms(1) by (simp add: find_root_iff)
    moreover have "find_root uf2 x = Some t" using x t i l e by (simp add: find_root_iff)
    ultimately show ?thesis by simp
  qed
  show ?thesis using f u s l p q by blast
qed

theorem union_uf_same_set_noop_witness:
  "uf_inv \<lparr>parent = [0, 0, 0, 2], size_uf = [4, 1, 2, 1]\<rparr>
   \<and> find_root \<lparr>parent = [0, 0, 0, 2], size_uf = [4, 1, 2, 1]\<rparr> 3
       = find_root \<lparr>parent = [0, 0, 0, 2], size_uf = [4, 1, 2, 1]\<rparr> 1
   \<and> union_uf \<lparr>parent = [0, 0, 0, 2], size_uf = [4, 1, 2, 1]\<rparr> 3 1
       = Some (False, \<lparr>parent = [0, 0, 0, 0], size_uf = [4, 1, 2, 1]\<rparr>)
   \<and> (\<exists>r uf1 uf2. find_uf \<lparr>parent = [0, 0, 0, 2], size_uf = [4, 1, 2, 1]\<rparr> 3 = Some (r, uf1)
         \<and> find_uf uf1 1 = Some (r, uf2)
         \<and> union_uf \<lparr>parent = [0, 0, 0, 2], size_uf = [4, 1, 2, 1]\<rparr> 3 1 = Some (False, uf2)
         \<and> size_uf uf2 = [4, 1, 2, 1])"
proof -
  let ?uf = "\<lparr>parent = [0, 0, 0, 2], size_uf = [4, 1, 2, 1]\<rparr>"
  have v: "list_all (call_valid (length (parent (UnionFind_new 4))))
             [Union 0 1, Union 2 3, Union 1 3]"
    by (simp add: UnionFind_new_def)
  have "run_calls (UnionFind_new 4) [Union 0 1, Union 2 3, Union 1 3] = Some ?uf"
    by code_simp
  then have i: "uf_inv ?uf"
    using run_calls_inv [OF uf_inv_new v] by auto
  have a: "3 < length (parent ?uf)" and b: "1 < length (parent ?uf)" by simp_all
  have e: "find_root ?uf 3 = find_root ?uf 1" by code_simp
  have u: "union_uf ?uf 3 1 = Some (False, \<lparr>parent = [0, 0, 0, 0], size_uf = [4, 1, 2, 1]\<rparr>)"
    by code_simp
  from union_uf_same_set_noop [OF i a b e]
  have "\<exists>r uf1 uf2. find_uf ?uf 3 = Some (r, uf1) \<and> find_uf uf1 1 = Some (r, uf2)
         \<and> union_uf ?uf 3 1 = Some (False, uf2) \<and> size_uf uf2 = [4, 1, 2, 1]"
    by auto
  then show ?thesis using i e u by blast
qed

section \<open>The two queries\<close>

subsection \<open>Union attempts along a list of pairs\<close>

lemma attempt_unions_snoc:
  "attempt_unions uf (ps @ [p]) =
     (case attempt_unions uf ps of
        None \<Rightarrow> None
      | Some (flags, uf') \<Rightarrow>
          (case union_uf uf' (pair_i p) (pair_j p) of
             None \<Rightarrow> None
           | Some (flag, uf'') \<Rightarrow> Some (flags @ [flag], uf'')))"
  by (induction ps arbitrary: uf) (auto split: option.splits)

lemma attempt_unions_take_Suc:
  assumes "k < length pairs" "attempt_unions uf0 (take k pairs) = Some (flags, uf)"
    and "union_uf uf (pair_i (pairs ! k)) (pair_j (pairs ! k)) = Some (flag, uf')"
  shows "attempt_unions uf0 (take (Suc k) pairs) = Some (flags @ [flag], uf')"
  using assms by (simp add: take_Suc_conv_app_nth attempt_unions_snoc)

lemma roots_eq: "{r. r < length ps \<and> ps ! r = r} = {r. root_of ps r r}"
  by (auto intro: root_self dest: root_of_bound)


lemma union_uf_step:
  assumes "uf_inv uf" "a < length (parent uf)" "b < length (parent uf)"
  shows "\<exists>flag uf'. union_uf uf a b = Some (flag, uf') \<and> uf_inv uf'
           \<and> length (parent uf') = length (parent uf)
           \<and> same_set uf' a b
           \<and> (\<forall>x y. same_set uf x y \<longrightarrow> same_set uf' x y)
           \<and> (if flag then Suc (num_roots uf') = num_roots uf else num_roots uf' = num_roots uf)"
proof -
  obtain ra where ra: "root_of (parent uf) a ra" using assms uf_inv_root by blast
  obtain rb where rb: "root_of (parent uf) b rb" using assms uf_inv_root by blast
  show ?thesis
  proof (cases "ra = rb")
    case True
    from union_uf_same [OF assms ra] rb True
    obtain uf' where u: "union_uf uf a b = Some (False, uf')" and i: "uf_inv uf'"
      and l: "length (parent uf') = length (parent uf)"
      and e: "\<forall>y s. root_of (parent uf') y s = root_of (parent uf) y s"
      by blast
    have "same_set uf' a b" using ra rb True e by (auto simp: same_set_def)
    moreover have "\<forall>x y. same_set uf x y \<longrightarrow> same_set uf' x y"
      using e by (simp add: same_set_def)
    moreover have "num_roots uf' = num_roots uf"
      using e by (simp add: num_roots_def roots_eq)
    ultimately show ?thesis using u i l by (intro exI [of _ False] exI [of _ uf']) simp
  next
    case False
    let ?lg = "larger_root uf ra rb" and ?sm = "smaller_root uf ra rb"
    from union_uf_merge [OF assms ra rb False]
    obtain uf' where u: "union_uf uf a b = Some (True, uf')" and i: "uf_inv uf'"
      and l: "length (parent uf') = length (parent uf)"
      and e: "\<forall>y s. root_of (parent uf') y s \<longleftrightarrow>
                 (\<exists>s0. root_of (parent uf) y s0 \<and> s = (if s0 = ?sm then ?lg else s0))"
      by (elim exE conjE) (rule that, assumption+)
    have ne: "?lg \<noteq> ?sm" and cases: "(?lg = ra \<and> ?sm = rb) \<or> (?lg = rb \<and> ?sm = ra)"
      using False by (auto simp: larger_root_def smaller_root_def)
    have rr: "root_of (parent uf) ra ra" "root_of (parent uf) rb rb"
      using ra rb root_of_bound by (blast intro: root_self)+
    then have lgsm: "root_of (parent uf) ?lg ?lg" "root_of (parent uf) ?sm ?sm"
      using cases by auto
    have "root_of (parent uf') a ?lg" "root_of (parent uf') b ?lg"
      using e ra rb cases ne by auto
    then have s: "same_set uf' a b" by (auto simp: same_set_def)
    have m: "\<forall>x y. same_set uf x y \<longrightarrow> same_set uf' x y"
      unfolding same_set_def using e by blast
    have "{r. root_of (parent uf') r r} = {r. root_of (parent uf) r r} - {?sm}"
    proof (intro set_eqI iffI)
      fix r assume "r \<in> {r. root_of (parent uf') r r}"
      then obtain s0 where s0: "root_of (parent uf) r s0" "r = (if s0 = ?sm then ?lg else s0)"
        using e by auto
      have "s0 \<noteq> ?sm"
      proof
        assume "s0 = ?sm"
        then have "r = ?lg" using s0(2) by simp
        then have "s0 = ?lg" using s0(1) lgsm(1) root_of_unique by blast
        then show False using \<open>s0 = ?sm\<close> ne by simp
      qed
      then show "r \<in> {r. root_of (parent uf) r r} - {?sm}" using s0 by auto
    next
      fix r assume "r \<in> {r. root_of (parent uf) r r} - {?sm}"
      then show "r \<in> {r. root_of (parent uf') r r}" using e by auto
    qed
    moreover have "?sm \<in> {r. root_of (parent uf) r r}" using lgsm by simp
    moreover have "finite {r. root_of (parent uf) r r}"
      by (rule finite_subset [of _ "{..<length (parent uf)}"]) (auto dest: root_of_bound)
    ultimately have "Suc (card {r. root_of (parent uf') r r}) = card {r. root_of (parent uf) r r}"
      by (metis card_Suc_Diff1)
    then have "Suc (num_roots uf') = num_roots uf"
      by (simp add: num_roots_def roots_eq)
    then show ?thesis using u i l s m by (intro exI [of _ True] exI [of _ uf']) simp
  qed
qed


subsection \<open>The loop of part2\<close>

lemma part2_loop_exit:
  "\<not> (k < length pairs \<and> 1 < components) \<Longrightarrow>
     part2_loop boxes pairs k components result uf = Some (k, components, result, uf)"
  by (subst part2_loop.simps) auto


lemma part2_loop_result:
  assumes "part2_loop boxes pairs k components result uf = Some (k', components', result', uf')"
    and "components' \<noteq> 1"
  shows "result' = result"
  using assms
proof (induction "length pairs - k" arbitrary: k components result uf)
  case 0
  then have "part2_loop boxes pairs k components result uf = Some (k, components, result, uf)"
    by (simp add: part2_loop_exit)
  then show ?case using "0.prems"(1) by simp
next
  case (Suc d)
  show ?case
  proof (cases "k < length pairs \<and> 1 < components")
    case False
    then have "part2_loop boxes pairs k components result uf = Some (k, components, result, uf)"
      by (rule part2_loop_exit)
    then show ?thesis using Suc.prems(1) by simp
  next
    case True
    let ?a = "pair_i (pairs ! k)" and ?b = "pair_j (pairs ! k)"
    have d: "d = length pairs - Suc k" using Suc.hyps(2) by simp
    obtain merged uf1 where u: "union_uf uf ?a ?b = Some (merged, uf1)"
      using Suc.prems(1) True by (subst (asm) part2_loop.simps) (auto split: option.splits)
    show ?thesis
    proof (cases "merged \<and> components - 1 = 1")
      case True
      then have "part2_loop boxes pairs k components result uf =
                 part2_loop boxes pairs (Suc k) 1 (box0 (boxes ! ?a) * box0 (boxes ! ?b)) uf1"
        using \<open>k < length pairs \<and> 1 < components\<close> u
        by (subst part2_loop.simps) (simp add: Let_def)
      also have "\<dots> = Some (Suc k, 1, box0 (boxes ! ?a) * box0 (boxes ! ?b), uf1)"
        by (rule part2_loop_exit) simp
      finally show ?thesis using Suc.prems by simp
    next
      case False
      then have "part2_loop boxes pairs k components result uf =
                 part2_loop boxes pairs (Suc k) (if merged then components - 1 else components)
                   result uf1"
        using \<open>k < length pairs \<and> 1 < components\<close> u
        by (subst part2_loop.simps) (auto simp: Let_def)
      then show ?thesis using Suc.hyps(1) [OF d] Suc.prems by simp
    qed
  qed
qed


lemma createSortedPairs_nth_valid:
  "\<forall>m<length (createSortedPairs boxes).
     pair_i (createSortedPairs boxes ! m) < length boxes
     \<and> pair_j (createSortedPairs boxes ! m) < length boxes"
  using createSortedPairs_valid [of _ boxes] by (metis less_trans nth_mem)


lemma part2_run_small:
  assumes "length boxes \<le> 1"
  shows "part2_run boxes = Some (0, int (length boxes), 0, UnionFind_new (length boxes))"
  unfolding part2_run_def using assms by (intro part2_loop_exit) simp



text \<open>
  C7. With at most one point the loop of \<open>part2\<close> is never entered and the result is
  the initial 0; and whenever the loop ends with a component count other than 1, the
  result is still the initial 0.
\<close>

theorem part2_sentinel:
  "(length boxes \<le> 1 \<longrightarrow>
      part2_run boxes = Some (0, int (length boxes), 0, UnionFind_new (length boxes))
      \<and> part2 boxes = Some 0)
   \<and> (part2_run boxes = Some (k, components, result, uf) \<and> components \<noteq> 1 \<longrightarrow>
        result = 0 \<and> part2 boxes = Some 0)"
proof (intro conjI impI)
  assume "length boxes \<le> 1"
  then show "part2_run boxes = Some (0, int (length boxes), 0, UnionFind_new (length boxes))"
    by (rule part2_run_small)
  then show "part2 boxes = Some 0" by (simp add: part2_def)
next
  assume a: "part2_run boxes = Some (k, components, result, uf) \<and> components \<noteq> 1"
  then show "result = 0"
    unfolding part2_run_def using part2_loop_result by blast
  then show "part2 boxes = Some 0" using a by (simp add: part2_def)
qed

theorem part2_sentinel_witness:
  "length [(5, 5, 5) :: Box] \<le> 1 \<and> part2 [(5, 5, 5)] = Some 0
   \<and> part2_run [] = Some (0, 0, 0, UnionFind_new 0) \<and> (0 :: int) \<noteq> 1 \<and> part2 [] = Some 0"
  using part2_sentinel [of "[(5, 5, 5)]"] part2_sentinel [of "[]" 0 0 0 "UnionFind_new 0"]
  by simp

subsection \<open>The first loop of part1\<close>

lemma part1_connect_exit:
  "\<not> (k < length pairs \<and> real connections < maxConnections) \<Longrightarrow>
     part1_connect pairs maxConnections k connections uf = Some (k, connections, uf)"
  by (subst part1_connect.simps) auto

lemma maxConnections_less:
  "real k < min 1000 (real n / 2) \<longleftrightarrow> k < min 1000 ((n + 1) div 2)"
proof -
  have "real k < real n / 2 \<longleftrightarrow> real (2 * k) < real n"
    by (simp add: field_simps)
  also have "\<dots> \<longleftrightarrow> 2 * k < n"
    by (simp only: of_nat_less_iff)
  also have "\<dots> \<longleftrightarrow> k < (n + 1) div 2"
    by linarith
  finally have "real k < real n / 2 \<longleftrightarrow> k < (n + 1) div 2" .
  moreover have "real k < 1000 \<longleftrightarrow> k < 1000" by simp
  ultimately show ?thesis by simp
qed

lemma part1_connect_attempts:
  assumes valid: "\<forall>m<length pairs. pair_i (pairs ! m) < n \<and> pair_j (pairs ! m) < n"
    and budget: "\<forall>c. real c < maxConnections \<longleftrightarrow> c < B"
    and inv: "uf_inv uf" "length (parent uf) = n"
    and run: "attempt_unions uf0 (take k pairs) = Some (flags, uf)" "length flags = k"
    and le: "k \<le> min (length pairs) B"
  shows "\<exists>flags' uf'.
           part1_connect pairs maxConnections k k uf =
             Some (min (length pairs) B, min (length pairs) B, uf')
           \<and> attempt_unions uf0 (take (min (length pairs) B) pairs) = Some (flags', uf')
           \<and> length flags' = min (length pairs) B
           \<and> uf_inv uf' \<and> length (parent uf') = n"
  using inv run le
proof (induction "min (length pairs) B - k" arbitrary: k uf flags)
  case 0
  then have k: "k = min (length pairs) B" by simp
  then have "\<not> (k < length pairs \<and> real k < maxConnections)"
    using budget by auto
  then have "part1_connect pairs maxConnections k k uf = Some (k, k, uf)"
    by (rule part1_connect_exit)
  then show ?case using k "0.prems" by auto
next
  case (Suc d)
  let ?a = "pair_i (pairs ! k)" and ?b = "pair_j (pairs ! k)"
  have k: "k < length pairs" "k < B" using Suc.hyps(2) by simp_all
  then have cond: "k < length pairs \<and> real k < maxConnections" using budget by simp
  have ab: "?a < length (parent uf)" "?b < length (parent uf)"
    using valid k(1) Suc.prems(2) by simp_all
  from union_uf_step [OF Suc.prems(1) ab]
  obtain flag uf1 where u: "union_uf uf ?a ?b = Some (flag, uf1)" and i1: "uf_inv uf1"
    and l1: "length (parent uf1) = n"
    using Suc.prems(2) by auto
  have run1: "attempt_unions uf0 (take (Suc k) pairs) = Some (flags @ [flag], uf1)"
    using k(1) Suc.prems(3) u by (rule attempt_unions_take_Suc)
  have len1: "length (flags @ [flag]) = Suc k" using Suc.prems(4) by simp
  have d: "d = min (length pairs) B - Suc k" using Suc.hyps(2) by simp
  have le1: "Suc k \<le> min (length pairs) B" using k by simp
  have "part1_connect pairs maxConnections k k uf =
        part1_connect pairs maxConnections (Suc k) (Suc k) uf1"
    using cond u by (subst part1_connect.simps) simp
  then show ?case
    using Suc.hyps(1) [OF d i1 l1 run1 len1 le1] by simp
qed

lemma part1_connected_run:
  "\<exists>flags uf.
     part1_connected boxes =
       Some (part1_attempts (length boxes) (length (createSortedPairs boxes)),
             part1_attempts (length boxes) (length (createSortedPairs boxes)), uf)
     \<and> attempt_unions (UnionFind_new (length boxes))
           (take (part1_attempts (length boxes) (length (createSortedPairs boxes)))
              (createSortedPairs boxes)) = Some (flags, uf)
     \<and> length flags = part1_attempts (length boxes) (length (createSortedPairs boxes))
     \<and> uf_inv uf \<and> length (parent uf) = length boxes"
proof -
  let ?pairs = "createSortedPairs boxes" and ?n = "length boxes"
  have b: "\<forall>c. real c < min 1000 (real ?n / 2) \<longleftrightarrow> c < min 1000 ((?n + 1) div 2)"
    using maxConnections_less by blast
  have l: "length (parent (UnionFind_new ?n)) = ?n" by (simp add: UnionFind_new_def)
  have r: "attempt_unions (UnionFind_new ?n) (take 0 ?pairs) = Some ([], UnionFind_new ?n)"
    "length ([] :: bool list) = 0"
    by simp_all
  have z: "0 \<le> min (length ?pairs) (min 1000 ((?n + 1) div 2))" by simp
  from part1_connect_attempts [OF createSortedPairs_nth_valid b uf_inv_new l r z]
  show ?thesis
    by (simp add: part1_connected_def part1_attempts_def Let_def)
qed

text \<open>
  C1 as stated fails for an odd number of points: three points allow two attempts,
  where \<open>min 1000 (3 div 2)\<close> is one; after one attempt the forest would be another.
\<close>

theorem part1_budget_floor_counterexample:
  "part1_connected [(0, 0, 0), (1, 0, 0), (2, 0, 0)]
     = Some (2, 2, \<lparr>parent = [0, 0, 0], size_uf = [3, 1, 1]\<rparr>)
   \<and> min (length (createSortedPairs [(0, 0, 0), (1, 0, 0), (2, 0, 0)]))
         (min 1000 (length [(0, 0, 0), (1, 0, 0), (2, 0, 0) :: Box] div 2)) = 1
   \<and> attempt_unions (UnionFind_new 3) (take 1 (createSortedPairs [(0, 0, 0), (1, 0, 0), (2, 0, 0)]))
       = Some ([True], \<lparr>parent = [0, 0, 2], size_uf = [2, 1, 1]\<rparr>)"
  by code_simp

text \<open>
  C1, amended. \<open>part1\<close> attempts a union on exactly the first \<open>K\<close> pairs of the sorted
  list, \<open>K\<close> the smaller of the number of pairs and \<open>min 1000 ((N + 1) div 2)\<close> (half of
  \<open>N\<close>, rounded up): the loop leaves \<open>k = connections = K\<close> and the forest of those \<open>K\<close>
  attempts, one unit of the budget for each attempt whatever its flag.
\<close>

theorem part1_budget_attempts:
  "\<exists>flags uf.
     part1_connected boxes =
       Some (min (length (createSortedPairs boxes)) (min 1000 ((length boxes + 1) div 2)),
             min (length (createSortedPairs boxes)) (min 1000 ((length boxes + 1) div 2)), uf)
     \<and> attempt_unions (UnionFind_new (length boxes))
           (take (min (length (createSortedPairs boxes)) (min 1000 ((length boxes + 1) div 2)))
              (createSortedPairs boxes)) = Some (flags, uf)
     \<and> length flags =
         min (length (createSortedPairs boxes)) (min 1000 ((length boxes + 1) div 2))"
  using part1_connected_run [of boxes] unfolding part1_attempts_def
  by (elim exE conjE) (intro exI conjI, assumption+)

subsection \<open>The second loop of part1\<close>

lemma Map_get_map_of: "Map_get m k = map_of m k"
  by (induction m) auto

lemma Map_set_keys:
  "map fst (Map_set m k v) = (if k \<in> fst ` set m then map fst m else map fst m @ [k])"
proof (induction m)
  case Nil
  show ?case by simp
next
  case (Cons p m)
  obtain k' v' where p: "p = (k', v')" by (cases p)
  show ?case using Cons p by (cases "k' = k") auto
qed

lemma Map_set_set:
  "distinct (map fst m) \<Longrightarrow> set (Map_set m k v) = {p \<in> set m. fst p \<noteq> k} \<union> {(k, v)}"
proof (induction m)
  case Nil
  show ?case by simp
next
  case (Cons p m)
  obtain k' v' where p: "p = (k', v')" by (cases p)
  show ?case
  proof (cases "k' = k")
    case True
    then have "k \<notin> fst ` set m" using Cons.prems p by simp
    then have "\<forall>q\<in>set m. fst q \<noteq> k" by blast
    then have "{q \<in> set (p # m). fst q \<noteq> k} = set m" using True p by auto
    moreover have "set (Map_set (p # m) k v) = insert (k, v) (set m)" using True p by simp
    ultimately show ?thesis by blast
  next
    case False
    have "set (Map_set m k v) = {q \<in> set m. fst q \<noteq> k} \<union> {(k, v)}"
      using Cons.IH Cons.prems by simp
    moreover have "set (Map_set (p # m) k v) = insert p (set (Map_set m k v))"
      using False p by simp
    moreover have "{q \<in> set (p # m). fst q \<noteq> k} = insert p {q \<in> set m. fst q \<noteq> k}"
      using False p by auto
    ultimately show ?thesis by blast
  qed
qed

lemma part1_count_exit:
  "\<not> i < n \<Longrightarrow> part1_count n i uf m = Some (m, uf)"
  by (subst part1_count.simps) simp

lemma part1_count_run:
  assumes inv: "uf_inv uf" "length (parent uf) = n"
    and same: "\<forall>y s. root_of (parent uf) y s = root_of ps0 y s"
    and keys: "distinct (map fst m)"
    and entries: "set m = {(r, c). c = card {x. x < i \<and> root_of ps0 x r} \<and> 0 < c}"
    and le: "i \<le> n"
  shows "\<exists>m' uf'. part1_count n i uf m = Some (m', uf') \<and> distinct (map fst m')
           \<and> set m' = {(r, c). c = card {x. x < n \<and> root_of ps0 x r} \<and> 0 < c}"
  using inv same keys entries le
proof (induction "n - i" arbitrary: i uf m)
  case 0
  then have "i = n" by simp
  then show ?case using "0.prems" by (simp add: part1_count_exit)
next
  case (Suc d)
  have i: "i < n" using Suc.hyps(2) by simp
  then have "i < length (parent uf)" using Suc.prems(2) by simp
  from find_uf_inv [OF Suc.prems(1) this]
  obtain r uf1 where f: "find_uf uf i = Some (r, uf1)" and r: "root_of ps0 i r"
    and i1: "uf_inv uf1" and l1: "length (parent uf1) = n"
    and s1: "\<forall>y s. root_of (parent uf1) y s = root_of ps0 y s"
    using Suc.prems(2,3) by auto
  let ?cnt = "\<lambda>j r. card {x. x < j \<and> root_of ps0 x r}"
  let ?m1 = "Map_set m r (?cnt i r + 1)"
  have fin: "finite {x. x < j \<and> root_of ps0 x t}" for j t by simp
  have "{x. x < Suc i \<and> root_of ps0 x r} = insert i {x. x < i \<and> root_of ps0 x r}"
    using r by (auto simp: less_Suc_eq)
  then have cr: "?cnt (Suc i) r = Suc (?cnt i r)" by simp
  have co: "?cnt (Suc i) t = ?cnt i t" if "t \<noteq> r" for t
  proof -
    have "{x. x < Suc i \<and> root_of ps0 x t} = {x. x < i \<and> root_of ps0 x t}"
      using r that root_of_unique by (auto simp: less_Suc_eq)
    then show ?thesis by simp
  qed
  have get: "(case Map_get m r of None \<Rightarrow> 0 | Some c \<Rightarrow> c) = ?cnt i r"
  proof (cases "0 < ?cnt i r")
    case False
    have "r \<notin> fst ` set m"
    proof
      assume "r \<in> fst ` set m"
      then obtain c where "(r, c) \<in> set m" by auto
      then have "0 < ?cnt i r" unfolding Suc.prems(5) by simp
      then show False using False by simp
    qed
    then have "map_of m r = None" by (simp add: map_of_eq_None_iff)
    then show ?thesis using False by (simp add: Map_get_map_of)
  next
    case True
    then have "(r, ?cnt i r) \<in> set m" unfolding Suc.prems(5) by blast
    then have "map_of m r = Some (?cnt i r)" using Suc.prems(4) by simp
    then show ?thesis by (simp add: Map_get_map_of)
  qed
  have k1: "distinct (map fst ?m1)" using Suc.prems(4) by (simp add: Map_set_keys)
  have ms1: "set ?m1 = {p \<in> set m. fst p \<noteq> r} \<union> {(r, ?cnt i r + 1)}"
    using Suc.prems(4) by (rule Map_set_set)
  have mem: "(t, c) \<in> set ?m1 \<longleftrightarrow> c = ?cnt (Suc i) t \<and> 0 < c" for t c
  proof (cases "t = r")
    case True
    have "(t, c) \<in> set ?m1 \<longleftrightarrow> c = ?cnt i r + 1"
      unfolding ms1 using True by auto
    then show ?thesis using True cr by auto
  next
    case False
    have "(t, c) \<in> set ?m1 \<longleftrightarrow> (t, c) \<in> set m"
      unfolding ms1 using False by auto
    also have "\<dots> \<longleftrightarrow> c = ?cnt i t \<and> 0 < c"
      unfolding Suc.prems(5) by simp
    finally show ?thesis using co [OF False] by simp
  qed
  have e1: "set ?m1 = {(t, c). c = ?cnt (Suc i) t \<and> 0 < c}"
  proof (rule set_eqI)
    fix p :: "nat \<times> nat"
    obtain t c where "p = (t, c)" by (cases p)
    then show "p \<in> set ?m1 \<longleftrightarrow> p \<in> {(t, c). c = ?cnt (Suc i) t \<and> 0 < c}"
      using mem [of t c] by simp
  qed
  have d: "d = n - Suc i" using Suc.hyps(2) by simp
  have le1: "Suc i \<le> n" using i by simp
  have "part1_count n i uf m = part1_count n (Suc i) uf1 ?m1"
    using i f get by (subst part1_count.simps) simp
  then show ?case
    using Suc.hyps(1) [OF d i1 l1 s1 k1 e1 le1] by simp
qed

lemma component_size_card:
  assumes "uf_inv uf"
  shows "component_size uf r = card {x. x < length (parent uf) \<and> root_of (parent uf) x r}"
proof -
  have "component_size uf r = card {x. x < length (parent uf) \<and> find_root uf x = Some r}"
    by (simp add: component_size_def length_filter_conv_card cong: conj_cong)
  also have "{x. x < length (parent uf) \<and> find_root uf x = Some r} =
             {x. x < length (parent uf) \<and> root_of (parent uf) x r}"
    using assms by (auto simp: find_root_iff)
  finally show ?thesis .
qed

lemma count_entries_sizes:
  assumes "uf_inv uf" "distinct (map fst m)"
    and "set m = {(r, c). c = card {x. x < length (parent uf) \<and> root_of (parent uf) x r}
                   \<and> 0 < c}"
  shows "mset (map snd m) = mset (component_sizes uf)"
proof -
  let ?n = "length (parent uf)"
  have pos: "0 < component_size uf r \<longleftrightarrow> r < ?n \<and> parent uf ! r = r" for r
  proof -
    have "{x. x < ?n \<and> root_of (parent uf) x r} \<noteq> {} \<longleftrightarrow> r < ?n \<and> parent uf ! r = r"
      using root_of_bound root_self by blast
    then show ?thesis
      using assms(1) by (simp add: component_size_card card_gt_0_iff)
  qed
  have "set (map fst m) = {r. 0 < component_size uf r}"
    using assms(1,3) by (force simp: component_size_card)
  then have ks: "set (map fst m) = set (component_roots uf)"
    using pos by (auto simp: component_roots_def)
  have dr: "distinct (component_roots uf)"
    by (simp add: component_roots_def)
  have k: "mset (map fst m) = mset (component_roots uf)"
    using iffD1 [OF set_eq_iff_mset_eq_distinct [OF assms(2) dr] ks] .
  have "snd p = component_size uf (fst p)" if p: "p \<in> set m" for p
  proof -
    obtain r c where rc: "p = (r, c)" by (cases p)
    then have "(r, c) \<in> set m" using p by simp
    then have "c = card {x. x < length (parent uf) \<and> root_of (parent uf) x r}"
      unfolding assms(3) by blast
    then show ?thesis using rc assms(1) by (simp add: component_size_card)
  qed
  then have "map snd m = map (\<lambda>p. component_size uf (fst p)) m"
    by simp
  then have "map snd m = map (component_size uf) (map fst m)"
    by (simp add: comp_def)
  then have "mset (map snd m) = image_mset (component_size uf) (mset (map fst m))"
    by (metis mset_map)
  then show ?thesis
    using k by (simp add: component_sizes_def)
qed

lemma part1_sizes_eq:
  assumes "part1_connected boxes = Some (k, c, uf)"
  shows "part1_sizes boxes = Some (rev (sort (component_sizes uf)))"
proof -
  have i: "uf_inv uf" and l: "length (parent uf) = length boxes"
    using part1_connected_run [of boxes] assms by auto
  have e: "set ([] :: (nat \<times> nat) list) =
             {(r, c). c = card {x. x < 0 \<and> root_of (parent uf) x r} \<and> 0 < c}"
    by auto
  have same: "\<forall>y s. root_of (parent uf) y s = root_of (parent uf) y s"
    and keys: "distinct (map fst ([] :: (nat \<times> nat) list))"
    and le: "0 \<le> length boxes"
    by simp_all
  from part1_count_run [OF i l same keys e le]
  obtain m uf' where m: "part1_count (length boxes) 0 uf [] = Some (m, uf')"
    "distinct (map fst m)"
    "set m = {(r, c). c = card {x. x < length boxes \<and> root_of (parent uf) x r} \<and> 0 < c}"
    by auto
  have ms: "mset (map snd m) = mset (component_sizes uf)"
    using count_entries_sizes [OF i m(2)] m(3) l by simp
  have "sort (map snd m) = sort (component_sizes uf)"
    by (rule properties_for_sort) (use ms in simp_all)
  then show ?thesis
    using assms m(1) by (simp add: part1_sizes_def Map_values_def Array_sort_descending)
qed

lemma part1_connected_total:
  "\<exists>k uf. part1_connected boxes = Some (k, k, uf) \<and> uf_inv uf
     \<and> length (parent uf) = length boxes"
  using part1_connected_run [of boxes] by (elim exE conjE) (intro exI conjI, assumption+)

lemma part1_eq:
  assumes "part1_connected boxes = Some (k, c, uf)"
  shows "part1 boxes =
           Some (times_number
                   (times_number (at_index (rev (sort (component_sizes uf))) 0)
                      (at_index (rev (sort (component_sizes uf))) 1))
                   (at_index (rev (sort (component_sizes uf))) 2))"
  using part1_sizes_eq [OF assms] by (simp add: part1_def)

lemma length_component_sizes:
  "length (rev (sort (component_sizes uf))) = length (component_roots uf)"
  by (simp add: component_sizes_def)

text \<open>
  C4. When the forest after the first loop has at least 3 roots, \<open>part1\<close> returns the
  product of the first three entries of the component sizes in descending order, the
  size of a component being the number of indices whose \<open>find\<close> result is its root.
\<close>

theorem part1_three_largest:
  assumes "part1_connected boxes = Some (k, c, uf)" "3 \<le> length (component_roots uf)"
  shows "\<exists>s1 s2 s3 rest.
           rev (sort (map (\<lambda>r. card {x. x < length boxes \<and> find_root uf x = Some r})
                        (component_roots uf))) = s1 # s2 # s3 # rest
           \<and> part1 boxes = Some (Num (int s1 * int s2 * int s3))"
proof -
  let ?sizes = "rev (sort (component_sizes uf))"
  have l: "length (parent uf) = length boxes"
    using part1_connected_total [of boxes] assms(1) by auto
  have "component_size uf r = card {x. x < length boxes \<and> find_root uf x = Some r}" for r
    using l by (simp add: component_size_def length_filter_conv_card cong: conj_cong)
  then have e: "component_sizes uf =
      map (\<lambda>r. card {x. x < length boxes \<and> find_root uf x = Some r}) (component_roots uf)"
    by (simp add: component_sizes_def)
  have "3 \<le> length ?sizes" using assms(2) by (simp add: component_sizes_def)
  then obtain s1 s2 s3 rest where s: "?sizes = s1 # s2 # s3 # rest"
    by (metis Suc_le_length_iff numeral_3_eq_3)
  have "part1 boxes = Some (Num (int s1 * int s2 * int s3))"
    unfolding part1_eq [OF assms(1)] s by (simp add: at_index_def)
  then show ?thesis using s e by auto
qed

theorem part1_three_largest_witness:
  "part1_connected [(0, 0, 0), (1, 0, 0), (2, 0, 0), (100, 0, 0), (101, 0, 0), (102, 0, 0),
                    (200, 0, 0)]
     = Some (4, 4, \<lparr>parent = [0, 0, 0, 3, 3, 3, 6], size_uf = [3, 1, 1, 3, 1, 1, 1]\<rparr>)
   \<and> 3 \<le> length (component_roots \<lparr>parent = [0, 0, 0, 3, 3, 3, 6], size_uf = [3, 1, 1, 3, 1, 1, 1]\<rparr>)
   \<and> part1 [(0, 0, 0), (1, 0, 0), (2, 0, 0), (100, 0, 0), (101, 0, 0), (102, 0, 0), (200, 0, 0)]
       = Some (Num 9)
   \<and> (\<exists>s1 s2 s3.
         part1 [(0, 0, 0), (1, 0, 0), (2, 0, 0), (100, 0, 0), (101, 0, 0), (102, 0, 0), (200, 0, 0)]
           = Some (Num (int s1 * int s2 * int s3)))"
proof -
  let ?boxes = "[(0, 0, 0), (1, 0, 0), (2, 0, 0), (100, 0, 0), (101, 0, 0), (102, 0, 0),
                 (200, 0, 0) :: Box]"
  let ?uf = "\<lparr>parent = [0, 0, 0, 3, 3, 3, 6], size_uf = [3, 1, 1, 3, 1, 1, 1]\<rparr>"
  have c: "part1_connected ?boxes = Some (4, 4, ?uf)" by code_simp
  have r: "3 \<le> length (component_roots ?uf)" by code_simp
  have p: "part1 ?boxes = Some (Num 9)" by code_simp
  from part1_three_largest [OF c r]
  have "\<exists>s1 s2 s3. part1 ?boxes = Some (Num (int s1 * int s2 * int s3))" by blast
  then show ?thesis using c r p by blast
qed

text \<open>
  C10. \<open>sizes\<close> has one entry for each root of the forest after the first loop, so its
  indices 0, 1 and 2 are all in bounds exactly when at least 3 roots remain; with fewer,
  \<open>sizes[2]\<close> is read past the end and the product \<open>part1\<close> returns is \<open>NaN\<close>.
\<close>

theorem part1_fewer_than_three:
  assumes "part1_connected boxes = Some (k, c, uf)"
  shows "\<exists>sizes. part1_sizes boxes = Some sizes
           \<and> length sizes = length (component_roots uf)
           \<and> ((0 < length sizes \<and> 1 < length sizes \<and> 2 < length sizes)
                \<longleftrightarrow> 3 \<le> length (component_roots uf))
           \<and> (at_index sizes 2 = NaN \<longleftrightarrow> length (component_roots uf) < 3)
           \<and> (part1 boxes = Some NaN \<longleftrightarrow> length (component_roots uf) < 3)"
proof -
  let ?sizes = "rev (sort (component_sizes uf))"
  have s: "part1_sizes boxes = Some ?sizes" using assms by (rule part1_sizes_eq)
  have l: "length ?sizes = length (component_roots uf)" by (rule length_component_sizes)
  have b: "(0 < length ?sizes \<and> 1 < length ?sizes \<and> 2 < length ?sizes)
             \<longleftrightarrow> 3 \<le> length (component_roots uf)"
    using l by auto
  have a: "at_index ?sizes 2 = NaN \<longleftrightarrow> length (component_roots uf) < 3"
    using l by (auto simp: at_index_def)
  have n: "part1 boxes = Some NaN \<longleftrightarrow> length (component_roots uf) < 3"
  proof (cases "length (component_roots uf) < 3")
    case True
    then have "at_index ?sizes 2 = NaN" using a by simp
    then have "part1 boxes = Some NaN"
      unfolding part1_eq [OF assms]
      by (cases "times_number (at_index ?sizes 0) (at_index ?sizes 1)") simp_all
    then show ?thesis using True by simp
  next
    case False
    then have "0 < length ?sizes" "1 < length ?sizes" "2 < length ?sizes" using l by linarith+
    then have "part1 boxes \<noteq> Some NaN"
      unfolding part1_eq [OF assms] by (simp add: at_index_def)
    then show ?thesis using False by simp
  qed
  show ?thesis using s l b a n by blast
qed

theorem part1_fewer_than_three_witness:
  "part1_connected [(0, 0, 0), (1, 0, 0), (10, 10, 10), (11, 10, 10)]
     = Some (2, 2, \<lparr>parent = [0, 0, 2, 2], size_uf = [2, 1, 2, 1]\<rparr>)
   \<and> part1_sizes [(0, 0, 0), (1, 0, 0), (10, 10, 10), (11, 10, 10)] = Some [2, 2]
   \<and> length (component_roots \<lparr>parent = [0, 0, 2, 2], size_uf = [2, 1, 2, 1]\<rparr>) = 2
   \<and> part1 [(0, 0, 0), (1, 0, 0), (10, 10, 10), (11, 10, 10)] = Some NaN"
proof -
  let ?boxes = "[(0, 0, 0), (1, 0, 0), (10, 10, 10), (11, 10, 10) :: Box]"
  let ?uf = "\<lparr>parent = [0, 0, 2, 2], size_uf = [2, 1, 2, 1]\<rparr>"
  have c: "part1_connected ?boxes = Some (2, 2, ?uf)" by code_simp
  have s: "part1_sizes ?boxes = Some [2, 2]" by code_simp
  have r: "length (component_roots ?uf) = 2" by code_simp
  from part1_fewer_than_three [OF c] r
  have "part1 ?boxes = Some NaN" by auto
  then show ?thesis using c s r by blast
qed

subsection \<open>Repeated invocations\<close>




end
